theory Spec2Isabelle
  imports Main "HOL-Library.Multiset" "HOL-Library.List_Lexorder" "HOL-Library.Product_Lexorder"
begin

section \<open>JavaScript values used by the Jackett search service\<close>

text \<open>
  The development embeds \<^verbatim>\<open>packages/api/src/modules/jackett/jackett.service.ts\<close>.
  A JavaScript string is a sequence of UTF-16 code units; it is modelled as the list of
  their values. \<open>js\<close> writes an ASCII literal. The order on strings that \<open><\<close> and
  \<open>>\<close> compute in JavaScript is the lexicographic order on code units, which is the order
  of \<open>HOL-Library.List_Lexorder\<close>.
\<close>

type_synonym jsstring = "nat list"

definition js :: "string \<Rightarrow> jsstring" where
  "js s = map of_char s"

text \<open>Truthiness of a string (\<open>''\<close> is falsy) and of a string that may be
  \<^verbatim>\<open>undefined\<close> or \<^verbatim>\<open>null\<close> (\<open>None\<close>).\<close>

definition truthy :: "jsstring \<Rightarrow> bool" where
  "truthy s = (s \<noteq> [])"

definition truthy_opt :: "jsstring option \<Rightarrow> bool" where
  "truthy_opt v = (case v of None \<Rightarrow> False | Some s \<Rightarrow> truthy s)"

text \<open>\<^verbatim>\<open>a || b\<close> on optional strings.\<close>

definition js_or :: "jsstring option \<Rightarrow> jsstring option \<Rightarrow> jsstring option" where
  "js_or a b = (if truthy_opt a then a else b)"

text \<open>The code points ECMAScript calls WhiteSpace or LineTerminator: what
  \<^verbatim>\<open>String.prototype.trim\<close> strips and what \<^verbatim>\<open>\s\<close> matches.\<close>

definition is_space :: "nat \<Rightarrow> bool" where
  "is_space c = (c \<in> {0x9, 0xA, 0xB, 0xC, 0xD, 0x20, 0xA0, 0x1680, 0x2028, 0x2029,
                       0x202F, 0x205F, 0x3000, 0xFEFF} \<or> (0x2000 \<le> c \<and> c \<le> 0x200A))"

definition is_digit :: "nat \<Rightarrow> bool" where
  "is_digit c = (0x30 \<le> c \<and> c \<le> 0x39)"

definition trim :: "jsstring \<Rightarrow> jsstring" where
  "trim s = rev (dropWhile is_space (rev (dropWhile is_space s)))"

text \<open>\<^verbatim>\<open>s.split(sep)\<close> for a one-character separator: the pieces between the
  separators, empty pieces included; the empty string splits into one empty piece.\<close>

fun split :: "nat \<Rightarrow> jsstring \<Rightarrow> jsstring list" where
  "split sep [] = [[]]"
| "split sep (c # cs) =
     (if c = sep then [] # split sep cs
      else (case split sep cs of [] \<Rightarrow> [[c]] | w # ws \<Rightarrow> (c # w) # ws))"

text \<open>\<^verbatim>\<open>Array.prototype.find\<close> is \<^const>\<open>List.find\<close>; \<^verbatim>\<open>xs[0]\<close> is
  \<^verbatim>\<open>undefined\<close> on the empty array.\<close>

definition first_elem :: "'a list \<Rightarrow> 'a option" where
  "first_elem xs = (case xs of [] \<Rightarrow> None | x # _ \<Rightarrow> Some x)"

section \<open>lodash: uniq and uniqBy\<close>

text \<open>lodash's \<^verbatim>\<open>baseUniq\<close> walks the array once and keeps a value when the key
  computed from it is not among the keys seen so far.\<close>

fun baseUniq :: "('a \<Rightarrow> 'k) \<Rightarrow> 'k list \<Rightarrow> 'a list \<Rightarrow> 'a list" where
  "baseUniq f seen [] = []"
| "baseUniq f seen (x # xs) =
     (if f x \<in> set seen then baseUniq f seen xs else x # baseUniq f (f x # seen) xs)"

definition uniqBy :: "('a \<Rightarrow> 'k) \<Rightarrow> 'a list \<Rightarrow> 'a list" where
  "uniqBy f xs = baseUniq f [] xs"

definition uniq :: "'a list \<Rightarrow> 'a list" where
  "uniq xs = uniqBy (\<lambda>x. x) xs"

section \<open>Data model\<close>

text \<open>A raw hit of the backend (\<^verbatim>\<open>JackettResult\<close>). \<open>Link\<close> and \<open>MagnetUri\<close>
  may be absent.\<close>

record JackettResult =
  Guid :: jsstring
  Title :: jsstring
  TrackerId :: jsstring
  Size :: int
  Seeders :: int
  Peers :: int
  Link :: "jsstring option"
  MagnetUri :: "jsstring option"
  PublishDate :: jsstring

text \<open>The configured rules: the \<^verbatim>\<open>Tag\<close> and \<^verbatim>\<open>Quality\<close> entities.\<close>

record Tag =
  tag_name :: jsstring
  tag_score :: int

record Quality =
  quality_name :: jsstring
  quality_score :: int
  quality_match :: "jsstring list"

text \<open>The \<^verbatim>\<open>{ label, score }\<close> object that \<^verbatim>\<open>parseTag\<close> and
  \<^verbatim>\<open>parseQuality\<close> return.\<close>

record scored =
  label :: jsstring
  score :: int

text \<open>The object \<^verbatim>\<open>formatSearchResult\<close> builds. The fields \<^verbatim>\<open>id\<close> and
  \<^verbatim>\<open>size\<close> are named \<open>id'\<close> and \<open>size'\<close>.\<close>

record candidate =
  normalizedTitle :: jsstring
  normalizedTitleParts :: "jsstring list"
  id' :: jsstring
  indexer :: jsstring
  title :: jsstring
  quality :: scored
  size' :: int
  seeders :: int
  peers :: int
  link :: jsstring
  downloadLink :: "jsstring option"
  tag :: scored
  publishDate :: jsstring

text \<open>The options of \<^verbatim>\<open>search\<close> and \<^verbatim>\<open>searchIndexer\<close>. An omitted
  \<^verbatim>\<open>maxSize\<close> (\<open>None\<close>) defaults to \<^verbatim>\<open>Infinity\<close>; the content type only selects
  the quality rules, which the functions below take as they were loaded.\<close>

record opts =
  maxSize :: "int option"
  isSeason :: bool
  withoutFilter :: bool

section \<open>Scoring: parseTag and parseQuality\<close>

text \<open>\<^verbatim>\<open>toLowerCase\<close> is the built-in of the language; the functions take it as the
  parameter \<open>lower\<close>, so every theorem holds whatever it computes. The
  parameter the source calls \<^verbatim>\<open>normalizedTitle\<close> (the token list) is \<open>titleParts\<close> here.\<close>

definition parseTag :: "(jsstring \<Rightarrow> jsstring) \<Rightarrow> jsstring list \<Rightarrow> Tag list \<Rightarrow> scored" where
  "parseTag lower titleParts preferredTags =
     (let tagMatch = find (\<lambda>tag. truthy_opt (find (\<lambda>part. part = lower (tag_name tag)) titleParts))
                       preferredTags;
          unknownScore = (if length preferredTags > 0 then 0 else 1)
      in case tagMatch of
           Some t \<Rightarrow> \<lparr>label = tag_name t, score = tag_score t\<rparr>
         | None \<Rightarrow> \<lparr>label = js ''unknown'', score = unknownScore\<rparr>)"

definition parseQuality :: "(jsstring \<Rightarrow> jsstring) \<Rightarrow> jsstring list \<Rightarrow> Quality list \<Rightarrow> scored" where
  "parseQuality lower titleParts qualityParams =
     (let qualityMatch = find (\<lambda>q. list_ex (\<lambda>keyword.
                             truthy_opt (find (\<lambda>part. part = lower keyword) titleParts))
                           (quality_match q)) qualityParams
      in case qualityMatch of
           Some q \<Rightarrow> \<lparr>label = quality_name q, score = quality_score q\<rparr>
         | None \<Rightarrow> \<lparr>label = js ''unknown'', score = 0\<rparr>)"

section \<open>Normalisation: formatSearchResult\<close>

text \<open>\<^verbatim>\<open>sanitize\<close> (\<^verbatim>\<open>src/utils/sanitize\<close>) is a parameter. The tokens are the
  pieces of the sanitized title between single spaces that are neither empty nor blank.\<close>

definition title_parts :: "jsstring \<Rightarrow> jsstring list" where
  "title_parts t = filter (\<lambda>str. truthy str \<and> truthy (trim str)) (split 0x20 t)"

definition formatSearchResult ::
  "(jsstring \<Rightarrow> jsstring) \<Rightarrow> (jsstring \<Rightarrow> jsstring) \<Rightarrow> Quality list \<Rightarrow> Tag list
     \<Rightarrow> JackettResult \<Rightarrow> candidate" where
  "formatSearchResult sanitize lower qualityParams preferredTags result =
     (let nTitle = sanitize (Title result);
          nParts = title_parts nTitle
      in \<lparr>normalizedTitle = nTitle,
          normalizedTitleParts = nParts,
          id' = Guid result,
          indexer = TrackerId result,
          title = Title result,
          quality = parseQuality lower nParts qualityParams,
          size' = Size result,
          seeders = Seeders result,
          peers = Peers result,
          link = Guid result,
          downloadLink = js_or (MagnetUri result) (Link result),
          tag = parseTag lower nParts preferredTags,
          publishDate = PublishDate result\<rparr>)"

section \<open>Regular expressions\<close>

text \<open>
  The regular expressions of the source use characters, character classes, sequence,
  alternation, \<^verbatim>\<open>?\<close>, and \<^verbatim>\<open>*\<close> and \<^verbatim>\<open>+\<close> on a character class. \<open>rem r s\<close> lists
  what is left of \<open>s\<close> after each way \<open>r\<close> can match at its start, in the order a
  backtracking matcher tries them. \<^verbatim>\<open>s.match(r)\<close> and \<^verbatim>\<open>r.test(s)\<close>, for a pattern
  without anchors, look for a match starting at any position: \<open>regex_test\<close>.
\<close>

datatype rexp =
    Eps
  | Cls "nat \<Rightarrow> bool"
  | Seq rexp rexp
  | Alt rexp rexp
  | Opt rexp
  | Rep0 "nat \<Rightarrow> bool"
  | Rep1 "nat \<Rightarrow> bool"

definition Chr :: "char \<Rightarrow> rexp" where
  "Chr c = Cls (\<lambda>x. x = of_char c)"

fun Lit :: "string \<Rightarrow> rexp" where
  "Lit [] = Eps"
| "Lit [c] = Chr c"
| "Lit (c # cs) = Seq (Chr c) (Lit cs)"

fun rep0 :: "(nat \<Rightarrow> bool) \<Rightarrow> jsstring \<Rightarrow> jsstring list" where
  "rep0 p [] = [[]]"
| "rep0 p (c # cs) = (if p c then rep0 p cs @ [c # cs] else [c # cs])"

fun rem :: "rexp \<Rightarrow> jsstring \<Rightarrow> jsstring list" where
  "rem Eps s = [s]"
| "rem (Cls p) s = (case s of [] \<Rightarrow> [] | c # cs \<Rightarrow> if p c then [cs] else [])"
| "rem (Seq a b) s = concat (map (rem b) (rem a s))"
| "rem (Alt a b) s = rem a s @ rem b s"
| "rem (Opt a) s = rem a s @ [s]"
| "rem (Rep0 p) s = rep0 p s"
| "rem (Rep1 p) s = (case s of [] \<Rightarrow> [] | c # cs \<Rightarrow> if p c then rep0 p cs else [])"

fun regex_test :: "rexp \<Rightarrow> jsstring \<Rightarrow> bool" where
  "regex_test r [] = (rem r [] \<noteq> [])"
| "regex_test r (c # cs) = (rem r (c # cs) \<noteq> [] \<or> regex_test r cs)"

text \<open>The strings a pattern denotes, to state what the matcher finds.\<close>

fun lang :: "rexp \<Rightarrow> jsstring set" where
  "lang Eps = {[]}"
| "lang (Cls p) = {[c] | c. p c}"
| "lang (Seq a b) = {u @ v | u v. u \<in> lang a \<and> v \<in> lang b}"
| "lang (Alt a b) = lang a \<union> lang b"
| "lang (Opt a) = insert [] (lang a)"
| "lang (Rep0 p) = {s. list_all p s}"
| "lang (Rep1 p) = {s. s \<noteq> [] \<and> list_all p s}"

section \<open>The acceptance filter of searchIndexer\<close>

text \<open>\<^verbatim>\<open>/e\d+|episode|episode\d+|ep|ep\d+/\<close>, tried on each token.\<close>

definition episode_re :: rexp where
  "episode_re =
     Alt (Seq (Chr CHR ''e'') (Rep1 is_digit))
    (Alt (Lit ''episode'')
    (Alt (Seq (Lit ''episode'') (Rep1 is_digit))
    (Alt (Lit ''ep'')
         (Seq (Lit ''ep'') (Rep1 is_digit)))))"

text \<open>\<^verbatim>\<open>/ep?\d+\s*ep?\d+/\<close>, tried on the whole normalized title.\<close>

definition double_re :: rexp where
  "double_re =
     Seq (Chr CHR ''e'') (Seq (Opt (Chr CHR ''p'')) (Seq (Rep1 is_digit) (Seq (Rep0 is_space)
    (Seq (Chr CHR ''e'') (Seq (Opt (Chr CHR ''p'')) (Rep1 is_digit))))))"

text \<open>\<^verbatim>\<open>result.size < maxSize\<close>, where an omitted bound is \<^verbatim>\<open>Infinity\<close>.\<close>

definition below_maxSize :: "int \<Rightarrow> int option \<Rightarrow> bool" where
  "below_maxSize n m = (case m of None \<Rightarrow> True | Some k \<Rightarrow> n < k)"

definition isEpisode :: "candidate \<Rightarrow> bool" where
  "isEpisode result =
     list_ex (\<lambda>titlePart. regex_test episode_re titlePart
                \<and> \<not> regex_test double_re (normalizedTitle result))
             (normalizedTitleParts result)"

text \<open>The callback of the last \<^verbatim>\<open>.filter\<close> of \<^verbatim>\<open>searchIndexer\<close>.\<close>

definition accepts :: "opts \<Rightarrow> candidate \<Rightarrow> bool" where
  "accepts opt result =
     (if withoutFilter opt then True
      else
        let hasAcceptableSize = below_maxSize (size' result) (maxSize opt);
            hasSeeders = (seeders result \<ge> 0 \<and> seeders result > peers result);
            hasTag = (score (tag result) > 0)
        in if isSeason opt then hasAcceptableSize \<and> hasSeeders \<and> \<not> isEpisode result
           else hasAcceptableSize \<and> hasSeeders \<and> hasTag)"

section \<open>searchIndexer\<close>

text \<open>
  One call of \<^verbatim>\<open>searchIndexer\<close> sends every distinct query to its indexer. The HTTP
  request is the parameter \<open>request\<close>: the hits the backend answers to a query, or
  \<open>None\<close> when the request throws, which the source turns into no hits.
\<close>

definition rawResults_of ::
  "(jsstring \<Rightarrow> JackettResult list option) \<Rightarrow> jsstring list \<Rightarrow> JackettResult list list" where
  "rawResults_of request queries =
     map (\<lambda>query. case request query of None \<Rightarrow> [] | Some rs \<Rightarrow> rs) (uniq queries)"

definition hasLink :: "JackettResult \<Rightarrow> bool" where
  "hasLink result = truthy_opt (js_or (Link result) (MagnetUri result))"

definition searchIndexer ::
  "(jsstring \<Rightarrow> jsstring) \<Rightarrow> (jsstring \<Rightarrow> jsstring) \<Rightarrow> (jsstring \<Rightarrow> JackettResult list option)
     \<Rightarrow> Quality list \<Rightarrow> Tag list \<Rightarrow> opts \<Rightarrow> jsstring list \<Rightarrow> candidate list" where
  "searchIndexer sanitize lower request qualityParams preferredTags opt queries =
     (let rawResults = rawResults_of request queries
      in filter (accepts opt)
           (map (formatSearchResult sanitize lower qualityParams preferredTags)
             (filter hasLink (uniqBy Guid (concat rawResults)))))"

section \<open>lodash: orderBy\<close>

text \<open>
  \<^verbatim>\<open>orderBy(collection, iteratees, orders)\<close> pairs every element with its position,
  sorts the pairs with \<^verbatim>\<open>Array.prototype.sort\<close> under \<^verbatim>\<open>compareMultiple\<close>, and drops
  the positions. \<^verbatim>\<open>compareMultiple\<close> compares iteratee by iteratee with
  \<^verbatim>\<open>compareAscending\<close>, negates the first difference when that iteratee's order is
  \<^verbatim>\<open>'desc'\<close>, and falls back on the difference of the positions. An iteratee is given
  here by the comparison of its values, so that iteratees of different types fit one list.
  The comparer never answers 0 on two different positions, so the sorted array is the same
  whatever algorithm the engine runs; the model inserts from the right.
\<close>

datatype order = asc | desc

definition compareAscending :: "'a::linorder \<Rightarrow> 'a \<Rightarrow> int" where
  "compareAscending v other = (if v > other then 1 else if v < other then - 1 else 0)"

definition on_key :: "('a \<Rightarrow> 'k::linorder) \<Rightarrow> 'a \<Rightarrow> 'a \<Rightarrow> int" where
  "on_key f a b = compareAscending (f a) (f b)"

fun compareMultiple :: "int list \<Rightarrow> order list \<Rightarrow> int \<Rightarrow> int" where
  "compareMultiple [] orders d = d"
| "compareMultiple (r # rs) orders d =
     (if r \<noteq> 0
      then (case orders of [] \<Rightarrow> r | ord # _ \<Rightarrow> r * (if ord = desc then - 1 else 1))
      else compareMultiple rs (tl orders) d)"

fun insert_by :: "('a \<Rightarrow> 'a \<Rightarrow> int) \<Rightarrow> 'a \<Rightarrow> 'a list \<Rightarrow> 'a list" where
  "insert_by cmp x [] = [x]"
| "insert_by cmp x (y # ys) = (if cmp x y \<le> 0 then x # y # ys else y # insert_by cmp x ys)"

definition array_sort :: "('a \<Rightarrow> 'a \<Rightarrow> int) \<Rightarrow> 'a list \<Rightarrow> 'a list" where
  "array_sort cmp xs = foldr (insert_by cmp) xs []"

definition comparer :: "('a \<Rightarrow> 'a \<Rightarrow> int) list \<Rightarrow> order list \<Rightarrow> nat \<times> 'a \<Rightarrow> nat \<times> 'a \<Rightarrow> int" where
  "comparer iteratees orders object other =
     compareMultiple (map (\<lambda>cmp. cmp (snd object) (snd other)) iteratees) orders
       (int (fst object) - int (fst other))"

definition orderBy :: "('a \<Rightarrow> 'a \<Rightarrow> int) list \<Rightarrow> order list \<Rightarrow> 'a list \<Rightarrow> 'a list" where
  "orderBy iteratees orders collection =
     map snd (array_sort (comparer iteratees orders) (zip [0..<length collection] collection))"

text \<open>The ranking of \<^verbatim>\<open>search\<close>:
  \<^verbatim>\<open>orderBy(flattenIndexers, ['indexer', 'tag.score', 'quality.score', 'seeders'],
  ['desc', 'desc', 'desc', 'desc'])\<close>, and the tuple of the four values it compares.\<close>

definition sortedByBest :: "candidate list \<Rightarrow> candidate list" where
  "sortedByBest flattenIndexers =
     orderBy [on_key indexer, on_key (\<lambda>c. score (tag c)), on_key (\<lambda>c. score (quality c)),
              on_key seeders]
             [desc, desc, desc, desc] flattenIndexers"

definition rank_key :: "candidate \<Rightarrow> jsstring \<times> int \<times> int \<times> int" where
  "rank_key c = (indexer c, score (tag c), score (quality c), seeders c)"

text \<open>A stable insertion sort in descending order of a key, to say what
  \<open>sortedByBest\<close> computes.\<close>

fun insert_desc :: "('a \<Rightarrow> 'k::linorder) \<Rightarrow> 'a \<Rightarrow> 'a list \<Rightarrow> 'a list" where
  "insert_desc key x [] = [x]"
| "insert_desc key x (y # ys) =
     (if key x \<ge> key y then x # y # ys else y # insert_desc key x ys)"

definition sort_desc :: "('a \<Rightarrow> 'k::linorder) \<Rightarrow> 'a list \<Rightarrow> 'a list" where
  "sort_desc key xs = foldr (insert_desc key) xs []"

section \<open>search\<close>

text \<open>
  \<^verbatim>\<open>search\<close> starts one \<^verbatim>\<open>searchIndexer\<close> per configured indexer and hands the
  promises to \<^verbatim>\<open>PromiseRaceAll\<close> (\<^verbatim>\<open>src/utils/promise-resolve\<close>) with a timeout. What
  that call settles to is the argument \<open>raced\<close>: either it resolves to one item per
  indexer, the indexer's candidates or a falsy item (\<open>None\<close>) that
  \<^verbatim>\<open>.filter((item) => Boolean(item))\<close> drops, or it rejects with a thrown value, an array
  of errors or a single error. Reading \<^verbatim>\<open>error[0].message\<close> on an empty array is a
  \<^verbatim>\<open>TypeError\<close>. The result array may hold \<^verbatim>\<open>undefined\<close> (\<open>None\<close>).
\<close>

datatype js_error = Error (message: jsstring)

datatype thrown = ErrorArray "js_error list" | ErrorValue js_error

datatype failure = Propagated js_error | TypeError

definition noResultsError :: jsstring where
  "noResultsError = js ''NO_RESULTS''"

definition search :: "opts \<Rightarrow> thrown + candidate list option list \<Rightarrow> failure + candidate option list" where
  "search opt raced =
     (case raced of
        Inr resolvedIndexers \<Rightarrow>
          (let flattenIndexers = concat (List.map_filter (\<lambda>item. item) resolvedIndexers);
               sorted = sortedByBest flattenIndexers
           in Inr (if withoutFilter opt then map Some sorted else [first_elem sorted]))
      | Inl (ErrorArray errors) \<Rightarrow>
          (case errors of
             [] \<Rightarrow> Inl TypeError
           | e # _ \<Rightarrow> if message e = noResultsError then Inr [] else Inl (Propagated e))
      | Inl (ErrorValue e) \<Rightarrow> Inl (Propagated e))"

text \<open>\<open>raced\<close> when every indexer's task resolves in time: \<open>requests\<close> lists, per
  configured indexer, what the backend answers to each query.\<close>

definition all_resolved ::
  "(jsstring \<Rightarrow> jsstring) \<Rightarrow> (jsstring \<Rightarrow> jsstring) \<Rightarrow> Quality list \<Rightarrow> Tag list \<Rightarrow> opts
     \<Rightarrow> jsstring list \<Rightarrow> (jsstring \<Rightarrow> JackettResult list option) list
     \<Rightarrow> thrown + candidate list option list" where
  "all_resolved sanitize lower qualityParams preferredTags opt queries requests =
     Inr (map (\<lambda>request. Some (searchIndexer sanitize lower request qualityParams preferredTags
                                  opt queries)) requests)"

section \<open>Transliteration and the Latin test\<close>

text \<open>The two tables of \<^verbatim>\<open>toLatin\<close>, after \<^verbatim>\<open>.split('_')\<close>: 78 Cyrillic letters, each
  one code unit, and the 78 Latin strings they map to.\<close>

definition cyrillic :: "jsstring list" where
  "cyrillic = map (\<lambda>c. [c])
     [0x410, 0x411, 0x412, 0x413, 0x414, 0x402, 0x415, 0x401, 0x416, 0x417, 0x418, 0x419,
      0x408, 0x41A, 0x41B, 0x409, 0x41C, 0x41D, 0x40A, 0x41E, 0x41F, 0x420, 0x421, 0x422,
      0x40B, 0x423, 0x424, 0x425, 0x426, 0x427, 0x40F, 0x428, 0x429, 0x42A, 0x42B, 0x42C,
      0x42D, 0x42E, 0x42F, 0x430, 0x431, 0x432, 0x433, 0x434, 0x452, 0x435, 0x451, 0x436,
      0x437, 0x438, 0x439, 0x458, 0x43A, 0x43B, 0x459, 0x43C, 0x43D, 0x45A, 0x43E, 0x43F,
      0x440, 0x441, 0x442, 0x45B, 0x443, 0x444, 0x445, 0x446, 0x447, 0x45F, 0x448, 0x449,
      0x44A, 0x44B, 0x44C, 0x44D, 0x44E, 0x44F]"

definition latin :: "jsstring list" where
  "latin =
     [[0x41], [0x42], [0x56], [0x47], [0x44], [0x110], [0x45], [0xCB], [0x17D], [0x5A], [0x49],
      [0x4A], [0x4A], [0x4B], [0x4C], [0x4C, 0x6A], [0x4D], [0x4E], [0x4E, 0x6A], [0x4F],
      [0x50], [0x52], [0x53], [0x54], [0x106], [0x55], [0x46], [0x48], [0x43], [0x10C],
      [0x44, 0x17E], [0x160], [0x15C], [0x2BA], [0x59], [0x2B9], [0xC8], [0xDB], [0xC2],
      [0x61], [0x62], [0x76], [0x67], [0x64], [0x111], [0x65], [0xEB], [0x17E], [0x7A], [0x69],
      [0x6A], [0x6A], [0x6B], [0x6C], [0x6C, 0x6A], [0x6D], [0x6E], [0x6E, 0x6A], [0x6F],
      [0x70], [0x72], [0x73], [0x74], [0x107], [0x75], [0x66], [0x68], [0x63], [0x10D],
      [0x64, 0x17E], [0x161], [0x15D], [0x2BA], [0x79], [0x2B9], [0xE8], [0xFB], [0xE2]]"

text \<open>\<^verbatim>\<open>Array.prototype.indexOf\<close>: the first position of the value, or -1.\<close>

fun indexOf :: "'a list \<Rightarrow> 'a \<Rightarrow> int" where
  "indexOf [] x = - 1"
| "indexOf (y # ys) x =
     (if y = x then 0 else (let i = indexOf ys x in if i = - 1 then - 1 else i + 1))"

definition toLatin :: "jsstring \<Rightarrow> jsstring" where
  "toLatin toTranslate =
     concat (map (\<lambda>char. let index = indexOf cyrillic char
                          in if index = - 1 then char else latin ! nat index)
                 (map (\<lambda>c. [c]) toTranslate))"

text \<open>
  \<^verbatim>\<open>isLatin\<close> tests the title against
  \<^verbatim>\<open>/[^\p{Script=Latin}0-9 .,\/#!$%\^&\*;:{}=\-_`~()+?@]/gu\<close>. With the \<^verbatim>\<open>u\<close> flag the
  pattern runs over code points, a surrogate pair counting as one. \<open>script_Latin\<close> is the
  set of code points whose Script property is Latin in the Unicode Character Database
  (Scripts.txt, version 15.0).
\<close>

definition latin_ranges :: "(nat \<times> nat) list" where
  "latin_ranges =
     [(0x41, 0x5A), (0x61, 0x7A), (0xAA, 0xAA), (0xBA, 0xBA), (0xC0, 0xD6), (0xD8, 0xF6),
      (0xF8, 0x2B8), (0x2E0, 0x2E4), (0x1D00, 0x1D25), (0x1D2C, 0x1D5C), (0x1D62, 0x1D65),
      (0x1D6B, 0x1D77), (0x1D79, 0x1DBE), (0x1E00, 0x1EFF), (0x2071, 0x2071), (0x207F, 0x207F),
      (0x2090, 0x209C), (0x212A, 0x212B), (0x2132, 0x2132), (0x214E, 0x214E), (0x2160, 0x2188),
      (0x2C60, 0x2C7F), (0xA722, 0xA787), (0xA78B, 0xA7CA), (0xA7D0, 0xA7D1), (0xA7D3, 0xA7D3),
      (0xA7D5, 0xA7D9), (0xA7F2, 0xA7FF), (0xAB30, 0xAB5A), (0xAB5C, 0xAB64), (0xAB66, 0xAB69),
      (0xFB00, 0xFB06), (0xFF21, 0xFF3A), (0xFF41, 0xFF5A), (0x10780, 0x10785),
      (0x10787, 0x107B0), (0x107B2, 0x107BA), (0x1DF00, 0x1DF1E), (0x1DF25, 0x1DF2A)]"

definition script_Latin :: "nat \<Rightarrow> bool" where
  "script_Latin cp = list_ex (\<lambda>(lo, hi). lo \<le> cp \<and> cp \<le> hi) latin_ranges"

fun code_points :: "jsstring \<Rightarrow> nat list" where
  "code_points (h # l # rest) =
     (if 0xD800 \<le> h \<and> h \<le> 0xDBFF \<and> 0xDC00 \<le> l \<and> l \<le> 0xDFFF
      then (0x10000 + (h - 0xD800) * 0x400 + (l - 0xDC00)) # code_points rest
      else h # code_points (l # rest))"
| "code_points s = s"

definition latin_allowed :: "nat \<Rightarrow> bool" where
  "latin_allowed cp =
     (script_Latin cp \<or> is_digit cp \<or> cp \<in> set (js '' .,/#!$%^&*;:{}=-_`~()+?@''))"

definition hasNonLatin :: rexp where
  "hasNonLatin = Cls (\<lambda>cp. \<not> latin_allowed cp)"

definition isLatin :: "jsstring \<Rightarrow> bool" where
  "isLatin t = (\<not> regex_test hasNonLatin (code_points t))"

section \<open>The queries of searchMovie\<close>

text \<open>The list \<^verbatim>\<open>searchMovie\<close> passes to \<^verbatim>\<open>search\<close>, from the movie's title, its
  original title and the year of its release date as \<^verbatim>\<open>dayjs\<close> formats it.\<close>

definition searchMovie_queries :: "jsstring \<Rightarrow> jsstring \<Rightarrow> jsstring \<Rightarrow> jsstring list" where
  "searchMovie_queries movieTitle originalTitle year =
     (let queries = [movieTitle @ js '' '' @ year];
          translatedOriginal = toLatin originalTitle
      in if isLatin translatedOriginal
         then queries @ [translatedOriginal @ js '' '' @ year]
         else queries)"

text \<open>A lower-casing of the ASCII letters, used where a theorem is run on an example.\<close>

definition ascii_lower :: "jsstring \<Rightarrow> jsstring" where
  "ascii_lower s = map (\<lambda>c. if 0x41 \<le> c \<and> c \<le> 0x5A then c + 0x20 else c) s"

section \<open>Example data\<close>

text \<open>Concrete hits, rules and options on which the theorems below are run.\<close>

definition hit ::
  "string \<Rightarrow> string \<Rightarrow> string \<Rightarrow> int \<Rightarrow> int \<Rightarrow> int \<Rightarrow> string option \<Rightarrow> string option
     \<Rightarrow> JackettResult" where
  "hit guid ttl tracker sz sd pr lnk mag =
     \<lparr>Guid = js guid, Title = js ttl, TrackerId = js tracker, Size = sz, Seeders = sd, Peers = pr,
      Link = map_option js lnk, MagnetUri = map_option js mag, PublishDate = js ''2020-01-01''\<rparr>"

definition automatic :: "int \<Rightarrow> opts" where
  "automatic m = \<lparr>maxSize = Some m, isSeason = False, withoutFilter = False\<rparr>"

definition season :: "int \<Rightarrow> opts" where
  "season m = \<lparr>maxSize = Some m, isSeason = True, withoutFilter = False\<rparr>"

definition manual :: opts where
  "manual = \<lparr>maxSize = None, isSeason = False, withoutFilter = True\<rparr>"

definition yts :: Tag where
  "yts = \<lparr>tag_name = js ''YTS'', tag_score = 5\<rparr>"

definition rarbg :: Tag where
  "rarbg = \<lparr>tag_name = js ''RARBG'', tag_score = 3\<rparr>"

text \<open>A hit with a magnet URI and a link, one with a link only, and one whose magnet URI
  is the empty string and whose link is missing.\<close>

definition hit_magnet :: JackettResult where
  "hit_magnet = hit ''guid-1'' ''heat 1995 1080p yts'' ''tracker-b'' 50 12 3
                    (Some ''http://b/1.torrent'') (Some ''magnet:?xt=1'')"

definition hit_link :: JackettResult where
  "hit_link = hit ''guid-2'' ''heat 1995 720p'' ''tracker-b'' 40 7 1
                  (Some ''http://b/2.torrent'') None"

definition hit_bare :: JackettResult where
  "hit_bare = hit ''guid-3'' ''heat 1995 cam'' ''tracker-b'' 30 9 1 None (Some [])"

text \<open>A second hit with the identifier of \<open>hit_magnet\<close>, from another indexer; a hit
  above every size bound used below; a single episode and a season pack.\<close>

definition hit_dup :: JackettResult where
  "hit_dup = hit ''guid-1'' ''heat 1995 1080p yts'' ''tracker-a'' 50 4 1
                 (Some ''http://a/1.torrent'') None"

definition hit_big :: JackettResult where
  "hit_big = hit ''guid-9'' ''heat 1995 2160p yts'' ''tracker-a'' 900 30 2
                 (Some ''http://a/9.torrent'') None"

definition hit_episode :: JackettResult where
  "hit_episode = hit ''guid-5'' ''show s02 e05 1080p'' ''tracker-b'' 50 12 3
                     (Some ''http://b/5.torrent'') None"

definition hit_pack :: JackettResult where
  "hit_pack = hit ''guid-6'' ''show s02 e01e10 1080p'' ''tracker-b'' 50 12 3
                  (Some ''http://b/6.torrent'') None"

text \<open>A \<^verbatim>\<open>sanitize\<close> that leaves the title as it is, and a backend that answers the same
  hits to every query.\<close>

definition as_is :: "jsstring \<Rightarrow> jsstring" where
  "as_is t = t"

definition answers :: "JackettResult list \<Rightarrow> jsstring \<Rightarrow> JackettResult list option" where
  "answers hits query = Some hits"

section \<open>Evaluation and basic facts\<close>

lemmas run_defs = js_def truthy_def truthy_opt_def js_or_def is_space_def is_digit_def trim_def
  first_elem_def uniqBy_def uniq_def parseTag_def parseQuality_def title_parts_def
  formatSearchResult_def Chr_def episode_re_def double_re_def below_maxSize_def isEpisode_def
  accepts_def rawResults_of_def hasLink_def searchIndexer_def hit_def automatic_def season_def
  manual_def yts_def rarbg_def hit_magnet_def hit_link_def hit_bare_def ascii_lower_def
  hit_dup_def hit_big_def hit_episode_def hit_pack_def as_is_def answers_def Let_def

lemma find_truthy_iff:
  "[] \<notin> set parts \<Longrightarrow> truthy_opt (find (\<lambda>part. part = w) parts) \<longleftrightarrow> w \<in> set parts"
  by (induction parts) (auto simp: truthy_opt_def truthy_def)

lemma title_parts_nonempty: "[] \<notin> set (title_parts t)"
  by (simp add: title_parts_def truthy_def)

lemma find_first:
  "P g \<Longrightarrow> \<forall>h\<in>set pre. \<not> P h \<Longrightarrow> find P (pre @ g # post) = Some g"
  by (induction pre) auto

lemma find_none: "\<forall>h\<in>set xs. \<not> P h \<Longrightarrow> find P xs = None"
  by (induction xs) auto

lemma baseUniq_subset: "set (baseUniq f seen xs) \<subseteq> set xs"
  by (induction xs arbitrary: seen) auto

lemma uniqBy_subset: "set (uniqBy f xs) \<subseteq> set xs"
  by (simp add: uniqBy_def baseUniq_subset)

lemma searchIndexer_origin:
  assumes "c \<in> set (searchIndexer sanitize lower request qualityParams preferredTags opt queries)"
  shows "\<exists>r\<in>set (concat (rawResults_of request queries)).
           hasLink r \<and> c = formatSearchResult sanitize lower qualityParams preferredTags r"
  using assms uniqBy_subset [of Guid "concat (rawResults_of request queries)"]
  by (auto simp: searchIndexer_def Let_def)

lemma hasLink_iff: "hasLink r \<longleftrightarrow> truthy_opt (Link r) \<or> truthy_opt (MagnetUri r)"
  by (auto simp: hasLink_def js_or_def truthy_opt_def split: option.splits)

lemma downloadLink_format:
  "downloadLink (formatSearchResult sanitize lower qualityParams preferredTags r)
     = (if truthy_opt (MagnetUri r) then MagnetUri r else Link r)"
  by (simp add: formatSearchResult_def js_or_def Let_def)

section \<open>The acceptance filter outside season searches\<close>

text \<open>
  Claim C3. In a search that is neither a season search nor a manual one, the filter of
  \<^verbatim>\<open>searchIndexer\<close> accepts a normalized candidate if and only if its size is strictly
  below the maximum acceptable size (an omitted maximum is \<^verbatim>\<open>Infinity\<close>), its seeders
  are non-negative and strictly more than its peers, and its tag score is strictly
  positive; the candidates \<^verbatim>\<open>searchIndexer\<close> returns are exactly the normalized hits that
  meet these conditions.
\<close>

theorem accepts_non_season:
  assumes "\<not> isSeason opt" and "\<not> withoutFilter opt"
  shows "(accepts opt c \<longleftrightarrow>
            (case maxSize opt of None \<Rightarrow> True | Some m \<Rightarrow> size' c < m)
            \<and> 0 \<le> seeders c \<and> peers c < seeders c \<and> 0 < score (tag c))
       \<and> searchIndexer sanitize lower request qualityParams preferredTags opt queries
           = filter (\<lambda>c. (case maxSize opt of None \<Rightarrow> True | Some m \<Rightarrow> size' c < m)
                          \<and> 0 \<le> seeders c \<and> peers c < seeders c \<and> 0 < score (tag c))
               (map (formatSearchResult sanitize lower qualityParams preferredTags)
                 (filter hasLink (uniqBy Guid (concat (rawResults_of request queries)))))"
proof -
  have a: "accepts opt c \<longleftrightarrow>
            (case maxSize opt of None \<Rightarrow> True | Some m \<Rightarrow> size' c < m)
            \<and> 0 \<le> seeders c \<and> peers c < seeders c \<and> 0 < score (tag c)" for c
    using assms by (auto simp: accepts_def below_maxSize_def Let_def)
  have "filter (accepts opt) xs
          = filter (\<lambda>c. (case maxSize opt of None \<Rightarrow> True | Some m \<Rightarrow> size' c < m)
                          \<and> 0 \<le> seeders c \<and> peers c < seeders c \<and> 0 < score (tag c)) xs" for xs
    by (rule filter_cong) (simp_all add: a)
  then show ?thesis
    unfolding searchIndexer_def Let_def using a by simp
qed

theorem accepts_non_season_witness:
  "accepts (automatic 100) (formatSearchResult as_is ascii_lower [] [yts] hit_magnet)
   \<and> \<not> accepts (automatic 50) (formatSearchResult as_is ascii_lower [] [yts] hit_magnet)
   \<and> \<not> accepts (automatic 100) (formatSearchResult as_is ascii_lower [] [yts] hit_link)"
proof -
  have h: "\<not> isSeason (automatic m)" "\<not> withoutFilter (automatic m)" for m
    by (simp_all add: automatic_def)
  note t = accepts_non_season [OF h, THEN conjunct1]
  show ?thesis
    unfolding t by (simp add: run_defs)
qed

section \<open>Tag matching\<close>

text \<open>
  Claim C5. On the token list of a candidate (the non-blank pieces of its normalized
  title), \<^verbatim>\<open>parseTag\<close> with no tag rule returns score 1; with at least one rule and no
  token equal to the lower-cased name of a rule it returns score 0; otherwise it returns the
  name and the score of the first rule, in list order, whose lower-cased name is a token.
\<close>

theorem parseTag_first_match:
  "parseTag lower (title_parts t) [] = \<lparr>label = js ''unknown'', score = 1\<rparr>
   \<and> (tags \<noteq> [] \<and> (\<forall>g\<in>set tags. lower (tag_name g) \<notin> set (title_parts t))
        \<longrightarrow> parseTag lower (title_parts t) tags = \<lparr>label = js ''unknown'', score = 0\<rparr>)
   \<and> (lower (tag_name g) \<in> set (title_parts t)
        \<and> (\<forall>h\<in>set pre. lower (tag_name h) \<notin> set (title_parts t))
        \<longrightarrow> parseTag lower (title_parts t) (pre @ g # post)
              = \<lparr>label = tag_name g, score = tag_score g\<rparr>)"
proof (intro conjI impI)
  show "parseTag lower (title_parts t) [] = \<lparr>label = js ''unknown'', score = 1\<rparr>"
    by (simp add: parseTag_def)
next
  assume a: "tags \<noteq> [] \<and> (\<forall>g\<in>set tags. lower (tag_name g) \<notin> set (title_parts t))"
  let ?P = "\<lambda>tag. truthy_opt (find (\<lambda>part. part = lower (tag_name tag)) (title_parts t))"
  have "\<forall>g\<in>set tags. \<not> ?P g"
    using a by (simp add: find_truthy_iff [OF title_parts_nonempty])
  then have "find ?P tags = None" by (rule find_none)
  then show "parseTag lower (title_parts t) tags = \<lparr>label = js ''unknown'', score = 0\<rparr>"
    using a by (simp add: parseTag_def)
next
  assume a: "lower (tag_name g) \<in> set (title_parts t)
        \<and> (\<forall>h\<in>set pre. lower (tag_name h) \<notin> set (title_parts t))"
  let ?P = "\<lambda>tag. truthy_opt (find (\<lambda>part. part = lower (tag_name tag)) (title_parts t))"
  have "?P g" "\<forall>h\<in>set pre. \<not> ?P h"
    using a by (simp_all add: find_truthy_iff [OF title_parts_nonempty])
  then have "find ?P (pre @ g # post) = Some g" by (rule find_first)
  then show "parseTag lower (title_parts t) (pre @ g # post)
               = \<lparr>label = tag_name g, score = tag_score g\<rparr>"
    by (simp add: parseTag_def)
qed

theorem parseTag_first_match_witness:
  "parseTag ascii_lower (title_parts (js ''heat 1995 1080p yts'')) [rarbg]
     = \<lparr>label = js ''unknown'', score = 0\<rparr>
   \<and> parseTag ascii_lower (title_parts (js ''heat 1995 1080p yts'')) [rarbg, yts, yts]
     = \<lparr>label = js ''YTS'', score = 5\<rparr>"
proof -
  note t = parseTag_first_match [of ascii_lower "js ''heat 1995 1080p yts''" "[rarbg]" yts
      "[rarbg]" "[yts]"]
  have p: "title_parts (js ''heat 1995 1080p yts'')
             = [js ''heat'', js ''1995'', js ''1080p'', js ''yts'']"
    by (simp add: run_defs)
  have a: "[rarbg] \<noteq> [] \<and> (\<forall>g\<in>set [rarbg].
             ascii_lower (tag_name g) \<notin> set (title_parts (js ''heat 1995 1080p yts'')))"
    unfolding p by (simp add: run_defs)
  have b: "ascii_lower (tag_name yts) \<in> set (title_parts (js ''heat 1995 1080p yts''))
           \<and> (\<forall>h\<in>set [rarbg].
                 ascii_lower (tag_name h) \<notin> set (title_parts (js ''heat 1995 1080p yts'')))"
    unfolding p by (simp add: run_defs)
  from t a b show ?thesis by (simp add: yts_def)
qed

section \<open>The download link\<close>

text \<open>
  Claim C10. In every mode, manual mode included, every candidate that \<^verbatim>\<open>searchIndexer\<close>
  returns is the normalisation of a raw hit that has a link or a magnet URI (a non-empty
  string); its \<^verbatim>\<open>downloadLink\<close> is defined and non-empty, and is the magnet URI of that hit
  when the hit has one, its link otherwise. The normalisation of a hit with neither is never
  in the output.
\<close>

theorem searchIndexer_downloadLink:
  "(\<forall>c\<in>set (searchIndexer sanitize lower request qualityParams preferredTags opt queries).
      \<exists>r\<in>set (concat (rawResults_of request queries)).
        c = formatSearchResult sanitize lower qualityParams preferredTags r
        \<and> (truthy_opt (Link r) \<or> truthy_opt (MagnetUri r))
        \<and> downloadLink c = (if truthy_opt (MagnetUri r) then MagnetUri r else Link r)
        \<and> (\<exists>u. downloadLink c = Some u \<and> u \<noteq> []))
   \<and> (\<forall>r. \<not> truthy_opt (Link r) \<and> \<not> truthy_opt (MagnetUri r)
          \<longrightarrow> formatSearchResult sanitize lower qualityParams preferredTags r
                \<notin> set (searchIndexer sanitize lower request qualityParams preferredTags opt queries))"
proof (intro conjI ballI allI impI)
  fix c
  assume "c \<in> set (searchIndexer sanitize lower request qualityParams preferredTags opt queries)"
  then obtain r where r: "r \<in> set (concat (rawResults_of request queries))" "hasLink r"
      "c = formatSearchResult sanitize lower qualityParams preferredTags r"
    using searchIndexer_origin by blast
  have d: "downloadLink c = (if truthy_opt (MagnetUri r) then MagnetUri r else Link r)"
    using r(3) by (simp add: downloadLink_format)
  have "truthy_opt (downloadLink c)"
    using r(2) d by (auto simp: hasLink_iff)
  then have "\<exists>u. downloadLink c = Some u \<and> u \<noteq> []"
    by (auto simp: truthy_opt_def truthy_def split: option.splits)
  then show "\<exists>r\<in>set (concat (rawResults_of request queries)).
        c = formatSearchResult sanitize lower qualityParams preferredTags r
        \<and> (truthy_opt (Link r) \<or> truthy_opt (MagnetUri r))
        \<and> downloadLink c = (if truthy_opt (MagnetUri r) then MagnetUri r else Link r)
        \<and> (\<exists>u. downloadLink c = Some u \<and> u \<noteq> [])"
    using r d by (auto simp: hasLink_iff)
next
  fix r :: JackettResult
  assume n: "\<not> truthy_opt (Link r) \<and> \<not> truthy_opt (MagnetUri r)"
  show "formatSearchResult sanitize lower qualityParams preferredTags r
          \<notin> set (searchIndexer sanitize lower request qualityParams preferredTags opt queries)"
  proof
    assume "formatSearchResult sanitize lower qualityParams preferredTags r
              \<in> set (searchIndexer sanitize lower request qualityParams preferredTags opt queries)"
    then obtain r' where r': "hasLink r'"
        "formatSearchResult sanitize lower qualityParams preferredTags r
           = formatSearchResult sanitize lower qualityParams preferredTags r'"
      using searchIndexer_origin by blast
    have "downloadLink (formatSearchResult sanitize lower qualityParams preferredTags r)
          = downloadLink (formatSearchResult sanitize lower qualityParams preferredTags r')"
      using r'(2) by simp
    then have "(if truthy_opt (MagnetUri r) then MagnetUri r else Link r)
             = (if truthy_opt (MagnetUri r') then MagnetUri r' else Link r')"
      by (simp only: downloadLink_format)
    then show False using n r'(1) by (auto simp: hasLink_iff split: if_splits)
  qed
qed

theorem searchIndexer_downloadLink_witness:
  "map downloadLink (searchIndexer as_is ascii_lower
       (answers [hit_magnet, hit_link, hit_bare]) [] [] manual [js ''heat 1995''])
     = [Some (js ''magnet:?xt=1''), Some (js ''http://b/2.torrent'')]
   \<and> (\<exists>u. downloadLink (formatSearchResult as_is ascii_lower [] [] hit_link) = Some u \<and> u \<noteq> [])
   \<and> formatSearchResult as_is ascii_lower [] [] hit_bare
       \<notin> set (searchIndexer as_is ascii_lower
                (answers [hit_magnet, hit_link, hit_bare]) [] [] manual [js ''heat 1995''])"
proof -
  let ?out = "searchIndexer as_is ascii_lower (answers [hit_magnet, hit_link, hit_bare]) [] []
                manual [js ''heat 1995'']"
  note t = searchIndexer_downloadLink [of as_is ascii_lower
      "answers [hit_magnet, hit_link, hit_bare]" "[]" "[]" manual "[js ''heat 1995'']"]
  have out: "?out = [formatSearchResult as_is ascii_lower [] [] hit_magnet,
                     formatSearchResult as_is ascii_lower [] [] hit_link]"
    by (simp add: run_defs)
  have n: "\<not> truthy_opt (Link hit_bare) \<and> \<not> truthy_opt (MagnetUri hit_bare)"
    by (simp add: run_defs)
  have "formatSearchResult as_is ascii_lower [] [] hit_link \<in> set ?out"
    by (simp only: out) simp
  with t have a: "\<exists>u. downloadLink (formatSearchResult as_is ascii_lower [] [] hit_link) = Some u
                     \<and> u \<noteq> []"
    by blast
  from t n have b: "formatSearchResult as_is ascii_lower [] [] hit_bare \<notin> set ?out"
    by blast
  have "map downloadLink ?out = [Some (js ''magnet:?xt=1''), Some (js ''http://b/2.torrent'')]"
    by (simp only: out) (simp add: run_defs)
  with a b show ?thesis by simp
qed

section \<open>When every indexer fails\<close>

text \<open>
  Claim C7. When \<^verbatim>\<open>PromiseRaceAll\<close> rejects with the array of the per-indexer errors,
  \<^verbatim>\<open>search\<close> resolves to the empty list if the first error of the array carries the
  message \<^verbatim>\<open>NO_RESULTS\<close>, and otherwise rejects with that first error.
\<close>

theorem search_all_failed:
  "search opt (Inl (ErrorArray (e # rest)))
     = (if message e = js ''NO_RESULTS'' then Inr [] else Inl (Propagated e))"
  by (simp add: search_def noResultsError_def)

theorem search_all_failed_witness:
  "search (automatic 100) (Inl (ErrorArray [Error (js ''NO_RESULTS''), Error (js ''NO_RESULTS'')]))
     = Inr []
   \<and> search (automatic 100) (Inl (ErrorArray [Error (js ''ECONNREFUSED''), Error (js ''NO_RESULTS'')]))
     = Inl (Propagated (Error (js ''ECONNREFUSED'')))"
  using search_all_failed [of "automatic 100" "Error (js ''NO_RESULTS'')" "[Error (js ''NO_RESULTS'')]"]
    search_all_failed [of "automatic 100" "Error (js ''ECONNREFUSED'')" "[Error (js ''NO_RESULTS'')]"]
  by (simp add: js_def)

section \<open>What the matcher finds\<close>

text \<open>\<open>rem\<close> lists exactly the remainders after a prefix in the language of the
  pattern, so \<open>regex_test\<close> holds exactly when some substring is in the language.\<close>

lemma rep0_set: "set (rep0 p s) = {v. \<exists>u. s = u @ v \<and> list_all p u}"
proof (induction s)
  case Nil
  then show ?case by auto
next
  case (Cons c cs)
  show ?case
  proof (cases "p c")
    case True
    have "set (rep0 p (c # cs)) = insert (c # cs) (set (rep0 p cs))" using True by simp
    also have "\<dots> = {v. \<exists>u. c # cs = u @ v \<and> list_all p u}"
      unfolding Cons.IH using True
      by (auto simp: Cons_eq_append_conv) 
    finally show ?thesis .
  next
    case False
    then show ?thesis by (auto simp: Cons_eq_append_conv)
  qed
qed

lemma rem_set: "set (rem r s) = {v. \<exists>u. s = u @ v \<and> u \<in> lang r}"
proof (induction r arbitrary: s)
  case Eps
  show ?case by simp
next
  case (Cls p)
  show ?case by (cases s) auto
next
  case (Seq a b)
  show ?case
    apply (simp add: Seq)
    apply (rule set_eqI)
    apply (simp)
    apply (rule iffI)
     apply (metis append.assoc)
    apply (metis append.assoc)
    done
next
  case (Alt a b)
  show ?case by (auto simp: Alt)
next
  case (Opt a)
  show ?case by (auto simp: Opt)
next
  case (Rep0 p)
  show ?case by (simp add: rep0_set)
next
  case (Rep1 p)
  show ?case
    apply (cases s) 
     apply (auto simp: rep0_set Cons_eq_append_conv)
    done
qed

lemma regex_test_iff: "regex_test r s \<longleftrightarrow> (\<exists>u w v. s = u @ w @ v \<and> w \<in> lang r)"
proof (induction s)
  case Nil
  have "rem r [] \<noteq> [] \<longleftrightarrow> set (rem r []) \<noteq> {}" by simp
  then show ?case by (simp add: rem_set)
next
  case (Cons c cs)
  have a: "rem r (c # cs) \<noteq> [] \<longleftrightarrow> (\<exists>w v. c # cs = w @ v \<and> w \<in> lang r)"
  proof -
    have "rem r (c # cs) \<noteq> [] \<longleftrightarrow> set (rem r (c # cs)) \<noteq> {}" by simp
    then show ?thesis unfolding rem_set by blast
  qed
  show ?case
  proof
    assume "regex_test r (c # cs)"
    then consider "rem r (c # cs) \<noteq> []" | "regex_test r cs" by auto
    then show "\<exists>u w v. c # cs = u @ w @ v \<and> w \<in> lang r"
    proof cases
      case 1
      then obtain w v where "c # cs = w @ v" "w \<in> lang r" using a by blast
      then have "c # cs = [] @ w @ v \<and> w \<in> lang r" by simp
      then show ?thesis by blast
    next
      case 2
      then obtain u w v where "cs = u @ w @ v" "w \<in> lang r" using Cons.IH by blast
      then have "c # cs = (c # u) @ w @ v \<and> w \<in> lang r" by simp
      then show ?thesis by blast
    qed
  next
    assume "\<exists>u w v. c # cs = u @ w @ v \<and> w \<in> lang r"
    then obtain u w v where uwv: "c # cs = u @ w @ v" "w \<in> lang r" by blast
    show "regex_test r (c # cs)"
    proof (cases u)
      case Nil
      then have "rem r (c # cs) \<noteq> []" using uwv a by auto
      then show ?thesis by simp
    next
      case (Cons x u')
      then have "cs = u' @ w @ v" using uwv by simp
      then show ?thesis using uwv Cons.IH by auto
    qed
  qed
qed

lemma regex_test_extend: "regex_test r s \<Longrightarrow> regex_test r (u @ s @ v)"
proof -
  assume "regex_test r s"
  then obtain a w b where "s = a @ w @ b" "w \<in> lang r" unfolding regex_test_iff by blast
  then have "u @ s @ v = (u @ a) @ w @ (b @ v) \<and> w \<in> lang r" by simp
  then show ?thesis unfolding regex_test_iff by blast
qed

lemma regex_test_Alt: "regex_test (Alt a b) s \<longleftrightarrow> regex_test a s \<or> regex_test b s"
  unfolding regex_test_iff lang.simps Un_iff by blast

lemma episode_re_covers:
  "regex_test (Seq (Chr CHR ''e'') (Rep1 is_digit)) p
   \<or> regex_test (Lit ''episode'') p
   \<or> regex_test (Seq (Lit ''ep'') (Rep1 is_digit)) p
   \<Longrightarrow> regex_test episode_re p"
  unfolding episode_re_def regex_test_Alt by blast

lemma split_not_Nil: "split sep t \<noteq> []"
  by (induction t) (auto split: list.splits)

lemma split_Cons_other:
  "c \<noteq> sep \<Longrightarrow> split sep (c # cs) = (c # hd (split sep cs)) # tl (split sep cs)"
  using split_not_Nil [of sep cs] by (cases "split sep cs") auto

lemma split_shape:
  "(\<exists>v. t = hd (split sep t) @ v) \<and> (\<forall>w\<in>set (tl (split sep t)). \<exists>u v. t = u @ w @ v)"
proof (induction t)
  case Nil
  show ?case by simp
next
  case (Cons c cs)
  from Cons obtain v0 where v0: "cs = hd (split sep cs) @ v0" by blast
  have rest: "\<exists>u v. c # cs = u @ w @ v" if "w \<in> set (tl (split sep cs))" for w
  proof -
    from Cons that obtain u v where "cs = u @ w @ v" by blast
    then have "c # cs = (c # u) @ w @ v" by simp
    then show ?thesis by blast
  qed
  show ?case
  proof (cases "c = sep")
    case True
    have "c # cs = [c] @ hd (split sep cs) @ v0" using v0 by simp
    then have "\<exists>u v. c # cs = u @ hd (split sep cs) @ v" by blast
    moreover have "set (split sep cs) = insert (hd (split sep cs)) (set (tl (split sep cs)))"
      using split_not_Nil [of sep cs] by (cases "split sep cs") auto
    ultimately show ?thesis using True rest by auto
  next
    case False
    have "c # cs = (c # hd (split sep cs)) @ v0" using v0 by simp
    then show ?thesis using False rest by (auto simp: split_Cons_other simp del: split.simps)
  qed
qed

lemma split_piece: "w \<in> set (split sep t) \<Longrightarrow> \<exists>u v. t = u @ w @ v"
proof -
  assume w: "w \<in> set (split sep t)"
  have "set (split sep t) = insert (hd (split sep t)) (set (tl (split sep t)))"
    using split_not_Nil [of sep t] by (cases "split sep t") auto
  with w have "w = hd (split sep t) \<or> w \<in> set (tl (split sep t))" by auto
  then show ?thesis
  proof
    assume "w = hd (split sep t)"
    then obtain v where "t = [] @ w @ v" using split_shape [of t sep] by auto
    then show ?thesis by blast
  next
    assume "w \<in> set (tl (split sep t))"
    then show ?thesis using split_shape [of t sep] by blast
  qed
qed

lemma filter_split:
  "\<not> P sep \<Longrightarrow> filter P t = concat (map (filter P) (split sep t))"
proof (induction t)
  case Nil
  show ?case by simp
next
  case (Cons c cs)
  show ?case
  proof (cases "c = sep")
    case True
    then show ?thesis using Cons by simp
  next
    case False
    have "concat (map (filter P) (split sep cs))
            = filter P (hd (split sep cs)) @ concat (map (filter P) (tl (split sep cs)))"
      using split_not_Nil [of sep cs] by (cases "split sep cs") auto
    then show ?thesis using False Cons by (simp add: split_Cons_other del: split.simps)
  qed
qed

lemma trim_Nil: "trim s = [] \<Longrightarrow> \<forall>c\<in>set s. is_space c"
proof -
  assume "trim s = []"
  then have "dropWhile is_space (rev (dropWhile is_space s)) = []"
    by (simp add: trim_def)
  then have a: "\<forall>c\<in>set (dropWhile is_space s). is_space c"
    by simp
  have "dropWhile is_space s = []"
  proof (rule ccontr)
    assume n: "dropWhile is_space s \<noteq> []"
    then have "\<not> is_space (hd (dropWhile is_space s))" by (rule hd_dropWhile)
    moreover have "hd (dropWhile is_space s) \<in> set (dropWhile is_space s)" using n by simp
    ultimately show False using a by blast
  qed
  then show ?thesis by simp
qed

lemma concat_map_filter_keep:
  "\<forall>x\<in>set xs. \<not> keep x \<longrightarrow> g x = [] \<Longrightarrow> concat (map g xs) = concat (map g (filter keep xs))"
  by (induction xs) auto

lemma filter_title_parts:
  assumes "\<And>c. P c \<Longrightarrow> \<not> is_space c"
  shows "filter P t = concat (map (filter P) (title_parts t))"
proof -
  have "\<not> P 0x20" using assms [of "0x20"] by (auto simp: is_space_def)
  then have "filter P t = concat (map (filter P) (split 0x20 t))" by (rule filter_split)
  also have "\<dots> = concat (map (filter P)
                      (filter (\<lambda>str. truthy str \<and> truthy (trim str)) (split 0x20 t)))"
  proof (rule concat_map_filter_keep, intro ballI impI)
    fix x
    assume "\<not> (truthy x \<and> truthy (trim x))"
    then have "x = [] \<or> trim x = []" by (auto simp: truthy_def)
    then have "\<forall>c\<in>set x. is_space c" using trim_Nil by auto
    then show "filter P x = []" using assms by (auto simp: filter_empty_conv)
  qed
  finally show ?thesis by (simp add: title_parts_def)
qed

lemma double_re_two_e:
  "w \<in> lang double_re \<Longrightarrow> 2 \<le> length (filter (\<lambda>c. c = of_char CHR ''e'') w)"
  by (auto simp: double_re_def Chr_def)

lemma regex_test_double_two_e:
  assumes "regex_test double_re t"
  shows "2 \<le> length (filter (\<lambda>c. c = of_char CHR ''e'') t)"
proof -
  from assms obtain u w v where t: "t = u @ w @ v" and w: "w \<in> lang double_re"
    unfolding regex_test_iff by blast
  from w have "2 \<le> length (filter (\<lambda>c. c = of_char CHR ''e'') w)" by (rule double_re_two_e)
  then show ?thesis unfolding t by simp
qed

section \<open>The episode filter of season searches\<close>

lemma accepts_season:
  assumes "isSeason opt" and "\<not> withoutFilter opt"
  shows "accepts opt c \<longleftrightarrow>
           below_maxSize (size' c) (maxSize opt) \<and> 0 \<le> seeders c \<and> peers c < seeders c
           \<and> \<not> ((\<exists>p\<in>set (normalizedTitleParts c). regex_test episode_re p)
                \<and> \<not> regex_test double_re (normalizedTitle c))"
  using assms by (auto simp: accepts_def isEpisode_def Let_def list_ex_iff)

lemma single_episode_title:
  assumes "title_parts t = [js ''show'', js ''s02'', js ''e05'', js ''1080p'']"
  shows "\<not> regex_test double_re t"
proof
  assume "regex_test double_re t"
  then have "2 \<le> length (filter (\<lambda>c. c = of_char CHR ''e'') t)"
    by (rule regex_test_double_two_e)
  moreover have "filter (\<lambda>c. c = of_char CHR ''e'') t
                   = concat (map (filter (\<lambda>c. c = of_char CHR ''e'')) (title_parts t))"
    by (rule filter_title_parts) (simp add: is_space_def)
  ultimately show False unfolding assms by (simp add: js_def)
qed

lemma double_episode_title:
  assumes "title_parts t = [js ''show'', js ''s02'', js ''e01e10'', js ''1080p'']"
  shows "regex_test double_re t"
proof -
  have "js ''e01e10'' \<in> set (title_parts t)"
    unfolding assms by simp
  then have "js ''e01e10'' \<in> set (split 0x20 t)"
    by (simp add: title_parts_def)
  then obtain u v where t: "t = u @ js ''e01e10'' @ v" using split_piece by blast
  have "regex_test double_re (js ''e01e10'')"
    by (simp add: js_def double_re_def Chr_def is_digit_def is_space_def)
  then show ?thesis unfolding t by (rule regex_test_extend)
qed


text \<open>
  Claim C4. In a season search that is not manual, the filter accepts a candidate exactly
  when its size and its seeders pass and it is not taken for a single episode. A candidate
  with a token that matches one of the episode patterns \<^verbatim>\<open>e\d+\<close>, \<^verbatim>\<open>episode\<close>,
  \<^verbatim>\<open>ep\d+\<close> is rejected unless its normalized title matches the double episode pattern
  \<^verbatim>\<open>/ep?\d+\s*ep?\d+/\<close>; a candidate whose title matches the double pattern is treated as
  a season pack: the episode test does not reject it, and it is accepted exactly when its
  size and its seeders pass. A candidate with the tokens show, s02, e05, 1080p is rejected;
  one with the tokens show, s02, e01e10, 1080p is accepted when its size and its seeders
  pass.
\<close>

theorem season_episode_filter:
  assumes "isSeason opt" and "\<not> withoutFilter opt"
  shows "(accepts opt c \<longleftrightarrow>
            (case maxSize opt of None \<Rightarrow> True | Some m \<Rightarrow> size' c < m)
            \<and> 0 \<le> seeders c \<and> peers c < seeders c
            \<and> \<not> ((\<exists>p\<in>set (normalizedTitleParts c). regex_test episode_re p)
                 \<and> \<not> regex_test double_re (normalizedTitle c)))
       \<and> ((\<exists>p\<in>set (normalizedTitleParts c).
             regex_test (Seq (Chr CHR ''e'') (Rep1 is_digit)) p
             \<or> regex_test (Lit ''episode'') p
             \<or> regex_test (Seq (Lit ''ep'') (Rep1 is_digit)) p)
          \<and> \<not> regex_test double_re (normalizedTitle c)
          \<longrightarrow> \<not> accepts opt c)
       \<and> (regex_test double_re (normalizedTitle c)
          \<longrightarrow> (accepts opt c \<longleftrightarrow>
                 (case maxSize opt of None \<Rightarrow> True | Some m \<Rightarrow> size' c < m)
                 \<and> 0 \<le> seeders c \<and> peers c < seeders c))
       \<and> (normalizedTitleParts c = title_parts (normalizedTitle c)
          \<and> normalizedTitleParts c = [js ''show'', js ''s02'', js ''e05'', js ''1080p'']
          \<longrightarrow> \<not> accepts opt c)
       \<and> (normalizedTitleParts c = title_parts (normalizedTitle c)
          \<and> normalizedTitleParts c = [js ''show'', js ''s02'', js ''e01e10'', js ''1080p'']
          \<longrightarrow> (accepts opt c \<longleftrightarrow>
                 (case maxSize opt of None \<Rightarrow> True | Some m \<Rightarrow> size' c < m)
                 \<and> 0 \<le> seeders c \<and> peers c < seeders c))"
proof (intro conjI impI)
  show "accepts opt c \<longleftrightarrow>
            (case maxSize opt of None \<Rightarrow> True | Some m \<Rightarrow> size' c < m)
            \<and> 0 \<le> seeders c \<and> peers c < seeders c
            \<and> \<not> ((\<exists>p\<in>set (normalizedTitleParts c). regex_test episode_re p)
                 \<and> \<not> regex_test double_re (normalizedTitle c))"
    by (simp add: accepts_season [OF assms] below_maxSize_def)
next
  assume a: "(\<exists>p\<in>set (normalizedTitleParts c).
             regex_test (Seq (Chr CHR ''e'') (Rep1 is_digit)) p
             \<or> regex_test (Lit ''episode'') p
             \<or> regex_test (Seq (Lit ''ep'') (Rep1 is_digit)) p)
          \<and> \<not> regex_test double_re (normalizedTitle c)"
  then have "\<exists>p\<in>set (normalizedTitleParts c). regex_test episode_re p"
    using episode_re_covers by blast
  then show "\<not> accepts opt c"
    using a by (simp add: accepts_season [OF assms])
next
  assume "regex_test double_re (normalizedTitle c)"
  then show "accepts opt c \<longleftrightarrow>
                 (case maxSize opt of None \<Rightarrow> True | Some m \<Rightarrow> size' c < m)
                 \<and> 0 \<le> seeders c \<and> peers c < seeders c"
    by (simp add: accepts_season [OF assms] below_maxSize_def)
next
  assume a: "normalizedTitleParts c = title_parts (normalizedTitle c)
          \<and> normalizedTitleParts c = [js ''show'', js ''s02'', js ''e05'', js ''1080p'']"
  then have "title_parts (normalizedTitle c) = [js ''show'', js ''s02'', js ''e05'', js ''1080p'']"
    by (elim conjE) (rule trans [OF sym])
  then have "\<not> regex_test double_re (normalizedTitle c)"
    by (rule single_episode_title)
  moreover have "regex_test episode_re (js ''e05'')"
    by (simp add: js_def episode_re_def Chr_def is_digit_def)
  moreover have "js ''e05'' \<in> set (normalizedTitleParts c)"
    using a by (elim conjE) (erule ssubst, simp)
  ultimately show "\<not> accepts opt c"
    unfolding accepts_season [OF assms] by blast
next
  assume a: "normalizedTitleParts c = title_parts (normalizedTitle c)
          \<and> normalizedTitleParts c = [js ''show'', js ''s02'', js ''e01e10'', js ''1080p'']"
  then have "title_parts (normalizedTitle c) = [js ''show'', js ''s02'', js ''e01e10'', js ''1080p'']"
    by (elim conjE) (rule trans [OF sym])
  then have "regex_test double_re (normalizedTitle c)"
    by (rule double_episode_title)
  then show "accepts opt c \<longleftrightarrow>
                 (case maxSize opt of None \<Rightarrow> True | Some m \<Rightarrow> size' c < m)
                 \<and> 0 \<le> seeders c \<and> peers c < seeders c"
    by (simp add: accepts_season [OF assms] below_maxSize_def)
qed

theorem season_episode_filter_witness:
  "\<not> accepts (season 100) (formatSearchResult as_is ascii_lower [] [] hit_episode)
   \<and> accepts (season 100) (formatSearchResult as_is ascii_lower [] [] hit_pack)
   \<and> \<not> accepts (season 1000) (formatSearchResult as_is ascii_lower [] [] hit_episode)
   \<and> \<not> accepts (season 40) (formatSearchResult as_is ascii_lower [] [] hit_pack)"
proof -
  have h: "isSeason (season m)" "\<not> withoutFilter (season m)" for m
    by (simp_all add: season_def)
  let ?e = "formatSearchResult as_is ascii_lower [] [] hit_episode"
  let ?p = "formatSearchResult as_is ascii_lower [] [] hit_pack"
  have e: "normalizedTitleParts ?e = title_parts (normalizedTitle ?e)
           \<and> normalizedTitleParts ?e = [js ''show'', js ''s02'', js ''e05'', js ''1080p'']"
    by (simp add: run_defs)
  have p: "normalizedTitleParts ?p = title_parts (normalizedTitle ?p)
           \<and> normalizedTitleParts ?p = [js ''show'', js ''s02'', js ''e01e10'', js ''1080p'']"
    by (simp add: run_defs)
  have e1: "(\<exists>p\<in>set (normalizedTitleParts ?e).
               regex_test (Seq (Chr CHR ''e'') (Rep1 is_digit)) p
               \<or> regex_test (Lit ''episode'') p
               \<or> regex_test (Seq (Lit ''ep'') (Rep1 is_digit)) p)
            \<and> \<not> regex_test double_re (normalizedTitle ?e)"
    by (simp add: run_defs)
  have p2: "regex_test double_re (normalizedTitle ?p)"
    by (simp add: run_defs)
  have s: "(case maxSize (season 100) of None \<Rightarrow> True | Some m \<Rightarrow> size' ?p < m)
           \<and> 0 \<le> seeders ?p \<and> peers ?p < seeders ?p"
    by (simp add: run_defs)
  have s': "\<not> (case maxSize (season 40) of None \<Rightarrow> True | Some m \<Rightarrow> size' ?p < m)"
    by (simp add: run_defs)
  note t = season_episode_filter [OF h]
  from t [of 100 ?e] e1 have "\<not> accepts (season 100) ?e" by blast
  moreover from t [of 100 ?p] p2 s have "accepts (season 100) ?p" by blast
  moreover from t [of 1000 ?e] e have "\<not> accepts (season 1000) ?e" by blast
  moreover from t [of 40 ?p] p s' have "\<not> accepts (season 40) ?p" by blast
  ultimately show ?thesis by simp
qed

section \<open>The ranking\<close>

text \<open>Under the four \<^verbatim>\<open>'desc'\<close> orders the comparer puts a pair first when its key is
  larger, or equal with a smaller position; sorting the positioned elements with it is the
  stable insertion sort in descending order of the key.\<close>

lemma comparer_best:
  "comparer [on_key indexer, on_key (\<lambda>c. score (tag c)), on_key (\<lambda>c. score (quality c)),
             on_key seeders] [desc, desc, desc, desc] (i, a) (j, b) \<le> 0
   \<longleftrightarrow> rank_key a > rank_key b \<or> (rank_key a = rank_key b \<and> i \<le> j)"
  by (auto simp: comparer_def on_key_def compareAscending_def rank_key_def)

lemma insert_by_later:
  assumes "\<forall>e\<in>set es. i < fst e"
    and "\<And>j b. i < j \<Longrightarrow> cmp (i, x) (j, b) \<le> 0 \<longleftrightarrow> key x \<ge> key b"
  shows "map snd (insert_by cmp (i, x) es) = insert_desc key x (map snd es)"
  using assms(1)
proof (induction es)
  case Nil
  show ?case by simp
next
  case (Cons e es)
  obtain j b where e: "e = (j, b)" by (cases e)
  with Cons.prems have "i < j" by simp
  then have "cmp (i, x) (j, b) \<le> 0 \<longleftrightarrow> key x \<ge> key b" by (rule assms(2))
  then show ?case using Cons e by simp
qed

lemma set_insert_by: "set (insert_by cmp x xs) = insert x (set xs)"
  by (induction xs) auto

lemma set_array_sort: "set (array_sort cmp xs) = set xs"
  by (induction xs) (auto simp: array_sort_def set_insert_by)

lemma array_sort_zip:
  assumes "\<And>i j a b. i < j \<Longrightarrow> cmp (i, a) (j, b) \<le> 0 \<longleftrightarrow> key a \<ge> key b"
  shows "map snd (array_sort cmp (zip [k..<k + length xs] xs)) = sort_desc key xs"
proof (induction xs arbitrary: k)
  case Nil
  show ?case by (simp add: array_sort_def sort_desc_def)
next
  case (Cons x xs)
  have "[k..<k + length (x # xs)] = k # [Suc k..<Suc k + length xs]"
    by (subst upt_rec) simp
  then have z: "zip [k..<k + length (x # xs)] (x # xs)
                  = (k, x) # zip [Suc k..<Suc k + length xs] xs"
    by (simp only: zip_Cons_Cons)
  let ?es = "array_sort cmp (zip [Suc k..<Suc k + length xs] xs)"
  have later: "\<forall>e\<in>set ?es. k < fst e"
    by (auto simp: set_array_sort dest!: set_zip_leftD)
  have "map snd (array_sort cmp (zip [k..<k + length (x # xs)] (x # xs)))
          = map snd (insert_by cmp (k, x) ?es)"
    unfolding z by (simp add: array_sort_def)
  also have "\<dots> = insert_desc key x (map snd ?es)"
    using later assms by (rule insert_by_later)
  also have "\<dots> = insert_desc key x (sort_desc key xs)"
    by (simp only: Cons.IH)
  finally show ?case by (simp add: sort_desc_def)
qed

lemma sortedByBest_sort_desc: "sortedByBest cs = sort_desc rank_key cs"
proof -
  let ?cmp = "comparer [on_key indexer, on_key (\<lambda>c. score (tag c)),
                on_key (\<lambda>c. score (quality c)), on_key seeders] [desc, desc, desc, desc]"
  have "?cmp (i, a) (j, b) \<le> 0 \<longleftrightarrow> rank_key a \<ge> rank_key b" if "i < j" for i j a b
    using that comparer_best [of i a j b] by auto
  then have "map snd (array_sort ?cmp (zip [0..<0 + length cs] cs)) = sort_desc rank_key cs"
    by (rule array_sort_zip)
  then show ?thesis by (simp add: sortedByBest_def orderBy_def)
qed

lemma sort_desc_simps:
  "sort_desc key [] = []"
  "sort_desc key (x # xs) = insert_desc key x (sort_desc key xs)"
  by (simp_all add: sort_desc_def)

lemma mset_insert_desc: "mset (insert_desc key x xs) = add_mset x (mset xs)"
  by (induction xs) auto

lemma mset_sort_desc: "mset (sort_desc key xs) = mset xs"
  by (induction xs) (auto simp: sort_desc_simps mset_insert_desc)

lemma set_insert_desc: "set (insert_desc key x xs) = insert x (set xs)"
  by (induction xs) auto

lemma sorted_insert_desc:
  "sorted_wrt (\<lambda>a b. key a \<ge> key b) xs
   \<Longrightarrow> sorted_wrt (\<lambda>a b. key a \<ge> key b) (insert_desc key x xs)"
  by (induction xs) (auto simp: set_insert_desc)

lemma sorted_sort_desc: "sorted_wrt (\<lambda>a b. key a \<ge> key b) (sort_desc key xs)"
  by (induction xs) (auto simp: sort_desc_simps sorted_insert_desc)

lemma filter_insert_desc:
  "sorted_wrt (\<lambda>a b. key a \<ge> key b) xs
   \<Longrightarrow> filter (\<lambda>c. key c = k) (insert_desc key x xs)
       = (if key x = k then x # filter (\<lambda>c. key c = k) xs else filter (\<lambda>c. key c = k) xs)"
proof (induction xs)
  case Nil
  show ?case by simp
next
  case (Cons y ys)
  then show ?case by auto
qed

lemma filter_sort_desc:
  "filter (\<lambda>c. key c = k) (sort_desc key xs) = filter (\<lambda>c. key c = k) xs"
  by (induction xs) (auto simp: sort_desc_simps filter_insert_desc sorted_sort_desc)

lemma insert_desc_head:
  "\<forall>y\<in>set xs. key x \<ge> key y \<Longrightarrow> insert_desc key x xs = x # xs"
  by (cases xs) auto

lemma sort_desc_sorted:
  "sorted_wrt (\<lambda>a b. key a \<ge> key b) xs \<Longrightarrow> sort_desc key xs = xs"
  by (induction xs) (auto simp: sort_desc_simps insert_desc_head)

lemmas rank_defs = search_def all_resolved_def sortedByBest_sort_desc sort_desc_simps rank_key_def
  List.map_filter_def

text \<open>
  Claim C2. For every list of normalized candidates the ranking of \<^verbatim>\<open>search\<close> returns
  a permutation of it that is in descending order of the 4-tuple (indexer, tag score,
  quality score, seeders), compared lexicographically, and that keeps candidates of equal
  tuples in their original order; a list already in that order is returned unchanged, so
  ranking a ranked list changes nothing.
\<close>

theorem ranking_stable_descending:
  "sorted_wrt (\<lambda>a b. rank_key a \<ge> rank_key b) (sortedByBest cs)
   \<and> mset (sortedByBest cs) = mset cs
   \<and> (\<forall>k. filter (\<lambda>c. rank_key c = k) (sortedByBest cs) = filter (\<lambda>c. rank_key c = k) cs)
   \<and> (sorted_wrt (\<lambda>a b. rank_key a \<ge> rank_key b) cs \<longrightarrow> sortedByBest cs = cs)
   \<and> sortedByBest (sortedByBest cs) = sortedByBest cs"
  unfolding sortedByBest_sort_desc
  by (simp add: sorted_sort_desc mset_sort_desc filter_sort_desc sort_desc_sorted)


theorem ranking_stable_descending_witness:
  "sortedByBest [formatSearchResult as_is ascii_lower [] [yts] hit_magnet,
                 formatSearchResult as_is ascii_lower [] [yts] hit_link,
                 formatSearchResult as_is ascii_lower [] [yts] hit_dup]
     = [formatSearchResult as_is ascii_lower [] [yts] hit_magnet,
        formatSearchResult as_is ascii_lower [] [yts] hit_link,
        formatSearchResult as_is ascii_lower [] [yts] hit_dup]"
proof -
  let ?cs = "[formatSearchResult as_is ascii_lower [] [yts] hit_magnet,
              formatSearchResult as_is ascii_lower [] [yts] hit_link,
              formatSearchResult as_is ascii_lower [] [yts] hit_dup]"
  have "sorted_wrt (\<lambda>a b. rank_key a \<ge> rank_key b) ?cs"
    by (simp add: run_defs rank_key_def)
  with ranking_stable_descending [of ?cs] show ?thesis by blast
qed

section \<open>Deduplication by identifier\<close>

lemma baseUniq_keys:
  "distinct (map f (baseUniq f seen xs)) \<and> f ` set (baseUniq f seen xs) \<inter> set seen = {}"
proof (induction xs arbitrary: seen)
  case Nil
  show ?case by simp
next
  case (Cons x xs)
  show ?case
  proof (cases "f x \<in> set seen")
    case True
    then show ?thesis using Cons [of seen] by simp
  next
    case False
    then show ?thesis using Cons [of "f x # seen"] by auto
  qed
qed

lemma distinct_uniqBy: "distinct (map f (uniqBy f xs))"
  by (simp add: uniqBy_def baseUniq_keys)

lemma baseUniq_fixed:
  "distinct (map f ys) \<Longrightarrow> f ` set ys \<inter> set seen = {} \<Longrightarrow> baseUniq f seen ys = ys"
  by (induction ys arbitrary: seen) auto

lemma uniqBy_idem: "uniqBy f (uniqBy f xs) = uniqBy f xs"
  unfolding uniqBy_def by (rule baseUniq_fixed) (simp_all add: baseUniq_keys)

lemma find_baseUniq:
  "k \<notin> set seen \<Longrightarrow> find (\<lambda>r. f r = k) (baseUniq f seen xs) = find (\<lambda>r. f r = k) xs"
proof (induction xs arbitrary: seen)
  case Nil
  show ?case by simp
next
  case (Cons x xs)
  show ?case
  proof (cases "f x \<in> set seen")
    case True
    then have "f x \<noteq> k" using Cons.prems by auto
    then show ?thesis using True Cons by simp
  next
    case False
    then show ?thesis using Cons.IH [of "f x # seen"] Cons.prems by auto
  qed
qed

lemma find_uniqBy: "find (\<lambda>r. f r = k) (uniqBy f xs) = find (\<lambda>r. f r = k) xs"
  by (simp add: uniqBy_def find_baseUniq)

lemma find_distinct_key:
  "distinct (map f xs) \<Longrightarrow> r \<in> set xs \<Longrightarrow> find (\<lambda>r'. f r' = f r) xs = Some r"
  by (induction xs) (auto simp: rev_image_eqI)

lemma id_format: "id' (formatSearchResult sanitize lower qualityParams preferredTags r) = Guid r"
  by (simp add: formatSearchResult_def Let_def)

text \<open>
  Claim C6, as amended. Within the result of one \<^verbatim>\<open>searchIndexer\<close> call, that is per
  indexer, the identifiers of the candidates are pairwise different, and every candidate is
  the normalisation of the first raw hit that carries its identifier; deduplication by
  identifier is idempotent. The claim as stated, uniqueness in the whole result of
  \<^verbatim>\<open>search\<close>, fails: \<^verbatim>\<open>search\<close> concatenates the results of the indexers without
  deduplicating them.
\<close>

theorem searchIndexer_unique_ids:
  "distinct (map id' (searchIndexer sanitize lower request qualityParams preferredTags opt queries))
   \<and> (\<forall>c\<in>set (searchIndexer sanitize lower request qualityParams preferredTags opt queries).
        \<exists>r. find (\<lambda>r. Guid r = id' c) (concat (rawResults_of request queries)) = Some r
           \<and> c = formatSearchResult sanitize lower qualityParams preferredTags r)
   \<and> uniqBy Guid (uniqBy Guid raws) = uniqBy Guid raws"
proof (intro conjI ballI)
  let ?raws = "concat (rawResults_of request queries)"
  let ?fmt = "formatSearchResult sanitize lower qualityParams preferredTags"
  have m: "map id' (map ?fmt ys) = map Guid ys" for ys
    by (simp add: id_format)
  have "distinct (map Guid (filter hasLink (uniqBy Guid ?raws)))"
    by (rule distinct_map_filter) (rule distinct_uniqBy)
  then have "distinct (map id' (map ?fmt (filter hasLink (uniqBy Guid ?raws))))"
    by (simp only: m)
  then have "distinct (map id' (filter (accepts opt) (map ?fmt (filter hasLink (uniqBy Guid ?raws)))))"
    by (rule distinct_map_filter)
  then show "distinct (map id' (searchIndexer sanitize lower request qualityParams preferredTags opt queries))"
    by (simp add: searchIndexer_def Let_def)
next
  fix c
  let ?raws = "concat (rawResults_of request queries)"
  let ?fmt = "formatSearchResult sanitize lower qualityParams preferredTags"
  assume "c \<in> set (searchIndexer sanitize lower request qualityParams preferredTags opt queries)"
  then obtain r where r: "r \<in> set (uniqBy Guid ?raws)" "c = ?fmt r"
    by (auto simp: searchIndexer_def Let_def)
  have "find (\<lambda>r'. Guid r' = Guid r) (uniqBy Guid ?raws) = Some r"
    using distinct_uniqBy r(1) by (rule find_distinct_key)
  then have "find (\<lambda>r'. Guid r' = id' c) ?raws = Some r"
    using r(2) by (simp add: find_uniqBy id_format)
  then show "\<exists>r. find (\<lambda>r. Guid r = id' c) ?raws = Some r \<and> c = ?fmt r"
    using r(2) by blast
next
  show "uniqBy Guid (uniqBy Guid raws) = uniqBy Guid raws" by (rule uniqBy_idem)
qed

theorem searchIndexer_unique_ids_witness:
  "map id' (searchIndexer as_is ascii_lower (answers [hit_magnet, hit_dup, hit_link]) [] []
              manual [js ''heat 1995'', js ''Heat 1995''])
     = [js ''guid-1'', js ''guid-2'']
   \<and> distinct (map id' (searchIndexer as_is ascii_lower (answers [hit_magnet, hit_dup, hit_link])
                          [] [] manual [js ''heat 1995'', js ''Heat 1995'']))
   \<and> (\<exists>r. find (\<lambda>r. Guid r = js ''guid-1'')
               (concat (rawResults_of (answers [hit_magnet, hit_dup, hit_link])
                          [js ''heat 1995'', js ''Heat 1995''])) = Some r
          \<and> formatSearchResult as_is ascii_lower [] [] hit_magnet
              = formatSearchResult as_is ascii_lower [] [] r)"
proof -
  let ?out = "searchIndexer as_is ascii_lower (answers [hit_magnet, hit_dup, hit_link]) [] []
                manual [js ''heat 1995'', js ''Heat 1995'']"
  note t = searchIndexer_unique_ids [of as_is ascii_lower "answers [hit_magnet, hit_dup, hit_link]"
      "[]" "[]" manual "[js ''heat 1995'', js ''Heat 1995'']"]
  have out: "?out = [formatSearchResult as_is ascii_lower [] [] hit_magnet,
                     formatSearchResult as_is ascii_lower [] [] hit_link]"
    by (simp add: run_defs)
  have i: "id' (formatSearchResult as_is ascii_lower [] [] hit_magnet) = js ''guid-1''"
    by (simp add: run_defs)
  have "formatSearchResult as_is ascii_lower [] [] hit_magnet \<in> set ?out"
    by (simp only: out) simp
  with t have "\<exists>r. find (\<lambda>r. Guid r = id' (formatSearchResult as_is ascii_lower [] [] hit_magnet))
               (concat (rawResults_of (answers [hit_magnet, hit_dup, hit_link])
                          [js ''heat 1995'', js ''Heat 1995''])) = Some r
          \<and> formatSearchResult as_is ascii_lower [] [] hit_magnet
              = formatSearchResult as_is ascii_lower [] [] r"
    by blast
  then have a: "\<exists>r. find (\<lambda>r. Guid r = js ''guid-1'')
               (concat (rawResults_of (answers [hit_magnet, hit_dup, hit_link])
                          [js ''heat 1995'', js ''Heat 1995''])) = Some r
          \<and> formatSearchResult as_is ascii_lower [] [] hit_magnet
              = formatSearchResult as_is ascii_lower [] [] r"
    by (simp only: i)
  have b: "map id' ?out = [js ''guid-1'', js ''guid-2'']"
    by (simp only: out) (simp add: run_defs)
  from t have "distinct (map id' ?out)" by blast
  with a b show ?thesis by simp
qed

theorem search_duplicate_ids_counterexample:
  "search manual (all_resolved as_is ascii_lower [] [] manual [js ''heat 1995'']
       [answers [hit_dup], answers [hit_magnet]])
     = Inr [Some (formatSearchResult as_is ascii_lower [] [] hit_magnet),
            Some (formatSearchResult as_is ascii_lower [] [] hit_dup)]
   \<and> id' (formatSearchResult as_is ascii_lower [] [] hit_magnet)
     = id' (formatSearchResult as_is ascii_lower [] [] hit_dup)"
  by (simp add: run_defs rank_defs)

section \<open>What search returns when nothing is accepted\<close>

text \<open>
  Claim C1 says that an automated search with no accepted candidate returns the empty
  list. The code returns \<^verbatim>\<open>[sortedByBest[0]]\<close>, which on an empty ranking is the
  one-element array holding \<^verbatim>\<open>undefined\<close>: whenever every indexer resolves to nothing
  (a falsy item or no candidate), a search outside manual mode returns \<open>[None]\<close>.
\<close>

theorem search_nothing_accepted:
  assumes "\<not> withoutFilter opt" and "\<forall>item\<in>set resolved. item = None \<or> item = Some []"
  shows "search opt (Inr resolved) = Inr [None]"
proof -
  have c: "concat (List.map_filter (\<lambda>item. item) resolved) = []"
    using assms(2) by (induction resolved) (auto simp: List.map_filter_def)
  have "sortedByBest (concat (List.map_filter (\<lambda>item. item) resolved)) = sortedByBest []"
    by (simp only: c)
  then have "sortedByBest (concat (List.map_filter (\<lambda>item. item) resolved)) = []"
    by (simp add: sortedByBest_sort_desc sort_desc_simps)
  then show ?thesis
    using assms(1) by (simp add: search_def first_elem_def)
qed

theorem search_nothing_accepted_witness:
  "search (automatic 100) (all_resolved as_is ascii_lower [] [yts] (automatic 100)
       [js ''heat 1995''] [answers [hit_big], answers []])
     = Inr [None]"
proof -
  have r: "all_resolved as_is ascii_lower [] [yts] (automatic 100)
             [js ''heat 1995''] [answers [hit_big], answers []]
           = Inr [Some [], Some []]"
    by (simp add: run_defs all_resolved_def)
  have "search (automatic 100) (Inr [Some [], Some []]) = Inr [None]"
    by (rule search_nothing_accepted) (simp_all add: automatic_def)
  then show ?thesis by (simp only: r)
qed

section \<open>Transliteration and the Latin test\<close>

lemma indexOf_lower: "- 1 \<le> indexOf xs x"
  by (induction xs) (auto simp: Let_def)

lemma indexOf_absent: "indexOf xs x = - 1 \<longleftrightarrow> x \<notin> set xs"
proof (induction xs)
  case Nil
  show ?case by simp
next
  case (Cons y ys)
  have "indexOf ys x + 1 \<noteq> - 1" using indexOf_lower [of ys x] by linarith
  then show ?case using Cons by (auto simp: Let_def)
qed

lemma toLatin_identity:
  "\<forall>c\<in>set s. [c] \<notin> set cyrillic \<Longrightarrow> toLatin s = s"
  by (induction s) (auto simp: toLatin_def indexOf_absent Let_def)

lemma regex_test_Cls: "regex_test (Cls p) s \<longleftrightarrow> (\<exists>c\<in>set s. p c)"
  by (induction s) auto

lemma isLatin_iff: "isLatin t \<longleftrightarrow> (\<forall>c\<in>set (code_points t). latin_allowed c)"
  by (simp add: isLatin_def hasNonLatin_def regex_test_Cls)

lemma code_points_bmp: "\<forall>c\<in>set s. c < 0xD800 \<Longrightarrow> code_points s = s"
  by (induction s rule: code_points.induct) auto

lemma uniq_pair: "uniq [a, b] = (if a = b then [a] else [a, b])"
  by (simp add: uniq_def uniqBy_def)

lemma searchMovie_queries_eq:
  "searchMovie_queries movieTitle originalTitle year
     = (movieTitle @ js '' '' @ year)
       # (if isLatin (toLatin originalTitle) then [toLatin originalTitle @ js '' '' @ year] else [])"
  by (simp add: searchMovie_queries_def Let_def)

lemma latin_output_checked:
  "list_all (\<lambda>c. c = 0x2B9 \<or> c = 0x2BA \<or> (latin_allowed c \<and> c < 0xD800)) (concat latin)"
  by (simp add: latin_def latin_allowed_def script_Latin_def latin_ranges_def)

lemma latin_output_allowed:
  "\<forall>c\<in>\<Union>(set ` set latin) - {0x2B9, 0x2BA}. latin_allowed c \<and> c < 0xD800"
  using latin_output_checked unfolding list_all_iff set_concat by blast

lemma toLatin_append: "toLatin (u @ v) = toLatin u @ toLatin v"
  by (simp add: toLatin_def)

lemma toLatin_pass_through:
  "[c] \<notin> set cyrillic \<Longrightarrow> toLatin (u @ c # v) = toLatin u @ c # toLatin v"
  by (simp add: toLatin_def indexOf_absent Let_def)

lemma code_points_keeps:
  "c \<in> set s \<Longrightarrow> c < 0xD800 \<Longrightarrow> c \<in> set (code_points s)"
  by (induction s rule: code_points.induct) auto

lemma modifier_primes_refused: "\<not> latin_allowed 0x2B9 \<and> \<not> latin_allowed 0x2BA"
  by (simp add: latin_allowed_def script_Latin_def latin_ranges_def is_digit_def js_def)

text \<open>
  Claim C9, as amended. \<^verbatim>\<open>toLatin\<close> returns unchanged every string that holds no
  character of its Cyrillic table, and wherever it stands a character absent from the table
  passes through unchanged. \<^verbatim>\<open>isLatin\<close> is true of every string made of the characters
  of the Latin strings of the table other than U+02B9 and U+02BA, the modifier letters prime
  and double prime that the soft and the hard sign map to; on a string that holds one of
  these two it is false. Those two are of script Common, not Latin, and are not in the
  allow-list of the pattern, so the claim as stated fails on them.
\<close>

theorem toLatin_identity_isLatin_outputs:
  "((\<forall>c\<in>set s. [c] \<notin> set cyrillic) \<longrightarrow> toLatin s = s)
   \<and> ([c] \<notin> set cyrillic \<longrightarrow> toLatin (u @ c # v) = toLatin u @ c # toLatin v)
   \<and> (set t \<subseteq> \<Union>(set ` set latin) - {0x2B9, 0x2BA} \<longrightarrow> isLatin t)
   \<and> (0x2B9 \<in> set w \<or> 0x2BA \<in> set w \<longrightarrow> \<not> isLatin w)"
proof (intro conjI impI)
  assume "\<forall>c\<in>set s. [c] \<notin> set cyrillic"
  then show "toLatin s = s" by (rule toLatin_identity)
next
  assume "[c] \<notin> set cyrillic"
  then show "toLatin (u @ c # v) = toLatin u @ c # toLatin v" by (rule toLatin_pass_through)
next
  assume a: "set t \<subseteq> \<Union>(set ` set latin) - {0x2B9, 0x2BA}"
  then have b: "\<forall>c\<in>set t. latin_allowed c \<and> c < 0xD800"
    using latin_output_allowed by blast
  then have "code_points t = t" by (simp add: code_points_bmp)
  then show "isLatin t" using b by (simp add: isLatin_iff)
next
  assume "0x2B9 \<in> set w \<or> 0x2BA \<in> set w"
  then have "0x2B9 \<in> set (code_points w) \<or> 0x2BA \<in> set (code_points w)"
    using code_points_keeps [of "0x2B9" w] code_points_keeps [of "0x2BA" w] by auto
  then show "\<not> isLatin w"
    unfolding isLatin_iff using modifier_primes_refused by blast
qed

theorem toLatin_identity_isLatin_outputs_witness:
  "toLatin (js ''Heat 2'') = js ''Heat 2''
   \<and> toLatin [0x411, 0x72, 0x430, 0x74] = toLatin [0x411] @ 0x72 # toLatin [0x430, 0x74]
   \<and> isLatin [0x44, 0x17E, 0x6C, 0x6A, 0xE2]
   \<and> \<not> isLatin [0x6F, 0x62, 0x2BA, 0x65, 0x6B, 0x74]
   \<and> \<not> isLatin [0x72, 0x75, 0x73, 0x2B9]"
proof -
  have a: "\<forall>c\<in>set (js ''Heat 2''). [c] \<notin> set cyrillic"
    by (simp add: js_def cyrillic_def)
  have p: "[0x72] \<notin> set cyrillic"
    by (simp add: cyrillic_def)
  have b: "set [0x44, 0x17E, 0x6C, 0x6A, 0xE2] \<subseteq> \<Union>(set ` set latin) - {0x2B9, 0x2BA}"
    by (simp add: latin_def)
  have d: "0x2B9 \<in> set [0x6F, 0x62, 0x2BA, 0x65, 0x6B, 0x74]
           \<or> 0x2BA \<in> set [0x6F, 0x62, 0x2BA, 0x65, 0x6B, 0x74]"
    by simp
  have e: "0x2B9 \<in> set [0x72, 0x75, 0x73, 0x2B9] \<or> 0x2BA \<in> set [0x72, 0x75, 0x73, 0x2B9]"
    by simp
  from toLatin_identity_isLatin_outputs [of "js ''Heat 2''" "0x72" "[0x411]" "[0x430, 0x74]"
      "[0x44, 0x17E, 0x6C, 0x6A, 0xE2]" "[0x6F, 0x62, 0x2BA, 0x65, 0x6B, 0x74]"] a p b d
  have "toLatin (js ''Heat 2'') = js ''Heat 2''
        \<and> toLatin ([0x411] @ 0x72 # [0x430, 0x74]) = toLatin [0x411] @ 0x72 # toLatin [0x430, 0x74]
        \<and> isLatin [0x44, 0x17E, 0x6C, 0x6A, 0xE2]
        \<and> \<not> isLatin [0x6F, 0x62, 0x2BA, 0x65, 0x6B, 0x74]"
    by blast
  moreover from toLatin_identity_isLatin_outputs [of s c u v t "[0x72, 0x75, 0x73, 0x2B9]"] e
  have "\<not> isLatin [0x72, 0x75, 0x73, 0x2B9]" by blast
  ultimately show ?thesis by simp
qed

theorem isLatin_modifier_prime_counterexample:
  "[0x2B9] \<in> set latin \<and> toLatin [0x44C] = [0x2B9] \<and> \<not> isLatin (toLatin [0x44C])
   \<and> [0x2BA] \<in> set latin \<and> toLatin [0x44A] = [0x2BA] \<and> \<not> isLatin (toLatin [0x44A])"
  by (simp add: isLatin_iff toLatin_def cyrillic_def latin_def latin_allowed_def script_Latin_def
      latin_ranges_def is_digit_def js_def Let_def)

section \<open>The queries of a movie search\<close>

text \<open>
  Claim C8, as amended. The list \<^verbatim>\<open>searchMovie\<close> builds starts with the title and the
  year, and has the transliterated original title and the year as its second entry if and
  only if the transliterated original title passes \<^verbatim>\<open>isLatin\<close>, whether or not it
  differs from the title. \<^verbatim>\<open>searchIndexer\<close> dispatches \<^verbatim>\<open>uniq(queries)\<close>: the list of
  the queries sent has the second entry if and only if the transliterated original title
  passes \<^verbatim>\<open>isLatin\<close> and differs from the title, so two requests go to an indexer in
  that case and one otherwise.
\<close>

theorem searchMovie_queries_dispatched:
  "searchMovie_queries movieTitle originalTitle year
     = (movieTitle @ js '' '' @ year)
       # (if isLatin (toLatin originalTitle) then [toLatin originalTitle @ js '' '' @ year] else [])
   \<and> uniq (searchMovie_queries movieTitle originalTitle year)
     = (movieTitle @ js '' '' @ year)
       # (if isLatin (toLatin originalTitle) \<and> toLatin originalTitle \<noteq> movieTitle
          then [toLatin originalTitle @ js '' '' @ year] else [])
   \<and> length (rawResults_of request (searchMovie_queries movieTitle originalTitle year))
     = (if isLatin (toLatin originalTitle) \<and> toLatin originalTitle \<noteq> movieTitle then 2 else 1)"
proof -
  have "uniq [x] = [x]" for x :: jsstring
    by (simp add: uniq_def uniqBy_def)
  then show ?thesis
    by (simp add: searchMovie_queries_eq uniq_pair rawResults_of_def)
qed

theorem searchMovie_queries_dispatched_witness:
  "searchMovie_queries (js ''Brother'') [0x411, 0x440, 0x430, 0x442] (js ''1997'')
     = [js ''Brother 1997'', js ''Brat 1997'']
   \<and> uniq (searchMovie_queries (js ''Brat'') [0x411, 0x440, 0x430, 0x442] (js ''1997''))
     = [js ''Brat 1997'']"
proof -
  have t: "toLatin [0x411, 0x440, 0x430, 0x442] = js ''Brat''"
    by (simp add: toLatin_def cyrillic_def latin_def js_def Let_def)
  have l: "isLatin (js ''Brat'')"
    by (simp add: isLatin_iff js_def latin_allowed_def script_Latin_def latin_ranges_def)
  have n: "js ''Brat'' \<noteq> js ''Brother''"
    by (simp add: js_def)
  from searchMovie_queries_dispatched [of "js ''Brother''" "[0x411, 0x440, 0x430, 0x442]"
      "js ''1997''", THEN conjunct1]
  have "searchMovie_queries (js ''Brother'') [0x411, 0x440, 0x430, 0x442] (js ''1997'')
     = [js ''Brother 1997'', js ''Brat 1997'']"
    unfolding t using l by (simp add: js_def)
  moreover from searchMovie_queries_dispatched [of "js ''Brat''" "[0x411, 0x440, 0x430, 0x442]"
      "js ''1997''", THEN conjunct2]
  have "uniq (searchMovie_queries (js ''Brat'') [0x411, 0x440, 0x430, 0x442] (js ''1997''))
     = [js ''Brat 1997'']"
    unfolding t using l by (simp add: js_def)
  ultimately show ?thesis by simp
qed

theorem searchMovie_duplicate_counterexample:
  "searchMovie_queries (js ''Heat'') (js ''Heat'') (js ''1995'')
     = [js ''Heat 1995'', js ''Heat 1995'']
   \<and> isLatin (toLatin (js ''Heat'')) \<and> toLatin (js ''Heat'') = js ''Heat''"
proof -
  have t: "toLatin (js ''Heat'') = js ''Heat''"
    by (rule toLatin_identity) (simp add: js_def cyrillic_def)
  have l: "isLatin (js ''Heat'')"
    by (simp add: isLatin_iff js_def latin_allowed_def script_Latin_def latin_ranges_def)
  show ?thesis
    using t l by (simp add: searchMovie_queries_eq) (simp add: js_def)
qed

end
